theory Spec2Isabelle
  imports Complex_Main "HOL-Library.Multiset"
begin

section \<open>Radial Branch Generator: numbers and options\<close>

text \<open>
  The development embeds the second (animated) revision of the radial branch generator:
  \<open>createRng\<close>, \<open>computeRadius\<close>, \<open>polarToCartesian\<close>, \<open>addNode\<close>,
  \<open>addConnectionLine\<close>, \<open>generateStructure\<close> and \<open>applyBranchAnimation\<close>.

  JavaScript numbers are IEEE doubles. Every integer the generator handles (seeds, RNG
  states and their products with 16807) stays below \<open>2^53\<close> and is therefore exact; such
  values are modelled as \<open>int\<close>. All other numbers (angles, radii, times) are modelled as
  exact \<open>real\<close>s: rounding is not part of the model.
\<close>

definition js_rem :: "int \<Rightarrow> int \<Rightarrow> int" where
  \<comment> \<open>The JavaScript \<open>%\<close> on integers: the remainder takes the sign of the dividend.\<close>
  "js_rem a b = sgn a * (\<bar>a\<bar> mod \<bar>b\<bar>)"

record opts =
  initialLines :: nat
  levels :: nat
  childrenPerNode :: nat
  baseRadius :: real
  radiusStep :: real
  radiusJitter :: real
  angleJitter :: real
  branchSpread :: real
  seed :: int
  simultaneousRoot :: bool
  lineDuration :: real
  nodeDuration :: real
  childStagger :: real
  randomOffset :: real
  smoothFlow :: bool

definition DEFAULTS :: opts where
  "DEFAULTS = \<lparr> initialLines = 12, levels = 3, childrenPerNode = 2,
      baseRadius = 250, radiusStep = 180, radiusJitter = 40, angleJitter = 8,
      branchSpread = 60, seed = 12345, simultaneousRoot = False,
      lineDuration = 35 / 100, nodeDuration = 22 / 100, childStagger = 5 / 100,
      randomOffset = 6 / 100, smoothFlow = True \<rparr>"

record comp =
  width :: real
  height :: real
  displayStartTime :: real

section \<open>Deterministic RNG\<close>

text \<open>
  \<open>createRng\<close> returns a closure over the mutable variable \<open>value\<close>; the model passes
  that variable explicitly. \<open>rng_next\<close> and \<open>rng_range\<close> return the drawn number and
  the new value of the variable.
\<close>

definition createRng :: "int \<Rightarrow> int" where
  "createRng sd =
     (let value = js_rem sd 2147483647
      in if value \<le> 0 then value + 2147483646 else value)"

definition rng_next :: "int \<Rightarrow> real \<times> int" where
  "rng_next value =
     (let value' = js_rem (value * 16807) 2147483647
      in (real_of_int (value' - 1) / 2147483646, value'))"

definition rng_range :: "real \<Rightarrow> real \<Rightarrow> int \<Rightarrow> real \<times> int" where
  "rng_range minValue maxValue value =
     (let drawn = rng_next value
      in (minValue + (maxValue - minValue) * fst drawn, snd drawn))"

section \<open>Geometry helpers\<close>

definition toRadians :: "real \<Rightarrow> real" where
  "toRadians deg = deg * pi / 180"

definition polarToCartesian :: "real \<times> real \<Rightarrow> real \<Rightarrow> real \<Rightarrow> real \<times> real" where
  "polarToCartesian center radius angleDeg =
     (let rad = toRadians angleDeg
      in (fst center + cos rad * radius, snd center + sin rad * radius))"

definition computeRadius :: "nat \<Rightarrow> opts \<Rightarrow> int \<Rightarrow> real \<times> int" where
  "computeRadius level op rng =
     (let base = baseRadius op + (real level - 1) * radiusStep op;
          drawn = (if radiusJitter op > 0
                   then rng_range (- radiusJitter op) (radiusJitter op) rng
                   else (0, rng));
          jitter = fst drawn;
          radius = max 5 (base + jitter)
      in (radius, snd drawn))"

text \<open>
  The radius is the one place where a property stated here depends on how the doubles of
  the source round. For it the arithmetic of \<open>createRng\<close>'s \<open>next\<close> and \<open>range\<close> and of
  \<open>computeRadius\<close> is written a second time with the result of every floating-point
  operation passed through a rounding function \<open>rnd\<close>. Round-to-nearest on finite doubles
  is such a function, and it is monotone; with \<open>rnd\<close> the identity these are the
  definitions above. \<open>level - 1\<close> and the negation of \<open>radiusJitter\<close> are exact in the
  source and are not rounded.
\<close>

definition rng_next_fl :: "(real \<Rightarrow> real) \<Rightarrow> int \<Rightarrow> real \<times> int" where
  "rng_next_fl rnd value =
     (let value' = js_rem (value * 16807) 2147483647
      in (rnd (real_of_int (value' - 1) / 2147483646), value'))"

definition rng_range_fl :: "(real \<Rightarrow> real) \<Rightarrow> real \<Rightarrow> real \<Rightarrow> int \<Rightarrow> real \<times> int" where
  "rng_range_fl rnd minValue maxValue value =
     (let drawn = rng_next_fl rnd value
      in (rnd (minValue + rnd (rnd (maxValue - minValue) * fst drawn)), snd drawn))"

definition computeRadius_fl :: "(real \<Rightarrow> real) \<Rightarrow> nat \<Rightarrow> opts \<Rightarrow> int \<Rightarrow> real \<times> int" where
  "computeRadius_fl rnd level op rng =
     (let base = rnd (baseRadius op + rnd ((real level - 1) * radiusStep op));
          drawn = (if radiusJitter op > 0
                   then rng_range_fl rnd (- radiusJitter op) (radiusJitter op) rng
                   else (0, rng));
          jitter = fst drawn;
          radius = max 5 (rnd (base + jitter))
      in (radius, snd drawn))"

section \<open>Nodes and connection lines\<close>

text \<open>
  The source builds a graph of mutable objects: node objects that hold \<open>lineInfo\<close>
  objects in \<open>children\<close>, and \<open>lineInfo\<close> objects that refer back to their parent and
  child node. The model keeps the node objects in a store (\<open>heap\<close>, a list addressed by
  position) and the \<open>lineInfo\<close> objects in a second store; an object reference is the
  address of the object. The source never holds a dangling reference, so every address
  the model reads was allocated before. The host layers a node owns are reduced to what
  the generator computes for them: \<open>position\<close> is the position given to the node's null
  layer (its first two coordinates; the third is \<open>0\<close> when \<open>make3D\<close> is set).
  \<open>startTime\<close> and \<open>endTime\<close> of a \<open>lineInfo\<close> do not exist until the scheduler
  assigns them.
\<close>

record node =
  id_node :: nat
  level :: nat
  angle :: real
  radius :: real
  position :: "real \<times> real"
  parent :: "nat option"
  children :: "nat list"
  incomingLine :: "nat option"
  inTime :: real
  outTime :: real
  animStart :: real
  animEnd :: real

record lineInfo =
  parentNode :: nat
  childNode :: nat
  startTime :: "real option"
  endTime :: "real option"

section \<open>Tree builder\<close>

text \<open>
  The local variables of \<open>generateStructure\<close> that its loops update. \<open>lineInfos\<close> is at
  once the array of that name and the store of the \<open>lineInfo\<close> objects: every object
  \<open>addConnectionLine\<close> creates is pushed onto the array at once, so the object with
  address \<open>j\<close> is \<open>lineInfos[j]\<close>.
\<close>

record build_state =
  rng :: int
  heap :: "node list"
  lineInfos :: "lineInfo list"
  nodeSerial :: nat
  connectionSerial :: nat
  levelNodes :: "nat list"
  nodes :: "nat list list"

definition addNode ::
  "build_state \<Rightarrow> real \<times> real \<Rightarrow> real \<Rightarrow> real \<Rightarrow> nat \<Rightarrow> nat \<Rightarrow> nat \<times> build_state" where
  \<comment> \<open>Returns the address of the new node object.\<close>
  "addNode st pos ang rad lev i =
     (length (heap st),
      st\<lparr>heap := heap st @
        [\<lparr> id_node = i, level = lev, angle = ang, radius = rad, position = pos,
           parent = None, children = [], incomingLine = None,
           inTime = 0, outTime = 0, animStart = 0, animEnd = 0 \<rparr>]\<rparr>)"

definition addConnectionLine :: "build_state \<Rightarrow> nat \<Rightarrow> nat \<Rightarrow> nat \<times> build_state" where
  "addConnectionLine st parentN childN =
     (let li = length (lineInfos st);
          lineInfo = \<lparr> parentNode = parentN, childNode = childN,
                       startTime = None, endTime = None \<rparr>;
          h1 = (heap st)[parentN :=
                  (heap st ! parentN)\<lparr>children := children (heap st ! parentN) @ [li]\<rparr>];
          h2 = h1[childN := (h1 ! childN)\<lparr>parent := Some parentN, incomingLine := Some li\<rparr>]
      in (li, st\<lparr>heap := h2, lineInfos := lineInfos st @ [lineInfo]\<rparr>))"

definition level1_child ::
  "real \<times> real \<Rightarrow> opts \<Rightarrow> nat \<Rightarrow> real \<Rightarrow> build_state \<Rightarrow> nat \<Rightarrow> build_state" where
  \<comment> \<open>The body of the loop over \<open>i\<close> in the branch \<open>level === 1\<close>.\<close>
  "level1_child center op centerNode angleStep st i =
     (let baseAngle = angleStep * real i;
          drawn = (if angleJitter op > 0
                   then rng_range (- angleJitter op) (angleJitter op) (rng st)
                   else (0, rng st));
          jitter = fst drawn;
          ang = baseAngle + jitter;
          radiusDrawn = computeRadius 1 op (snd drawn);
          rad = fst radiusDrawn;
          pos = polarToCartesian center rad ang;
          added = addNode (st\<lparr>rng := snd radiusDrawn\<rparr>) pos ang rad 1 (nodeSerial st);
          childN = fst added;
          st1 = snd added;
          st2 = st1\<lparr>nodeSerial := nodeSerial st1 + 1, levelNodes := levelNodes st1 @ [childN]\<rparr>;
          st3 = snd (addConnectionLine st2 centerNode childN)
      in st3\<lparr>connectionSerial := connectionSerial st3 + 1\<rparr>)"

definition branch_child ::
  "real \<times> real \<Rightarrow> opts \<Rightarrow> nat \<Rightarrow> nat \<Rightarrow> build_state \<Rightarrow> nat \<Rightarrow> build_state" where
  \<comment> \<open>The body of the loop over \<open>c\<close> for the parent \<open>parentN\<close> at a level above 1.\<close>
  "branch_child center op lev parentN st c =
     (let spread = branchSpread op;
          normalized = (if childrenPerNode op > 1
                        then real c / (real (childrenPerNode op) - 1) - 1 / 2 else 0);
          offset = spread * normalized;
          drawn = (if angleJitter op > 0
                   then rng_range (- angleJitter op) (angleJitter op) (rng st)
                   else (0, rng st));
          jitterChild = fst drawn;
          angleChild = angle (heap st ! parentN) + offset + jitterChild;
          radiusDrawn = computeRadius lev op (snd drawn);
          radiusChild = fst radiusDrawn;
          posChild = polarToCartesian center radiusChild angleChild;
          added = addNode (st\<lparr>rng := snd radiusDrawn\<rparr>) posChild angleChild radiusChild lev
                    (nodeSerial st);
          newNode = fst added;
          st1 = snd added;
          st2 = st1\<lparr>nodeSerial := nodeSerial st1 + 1, levelNodes := levelNodes st1 @ [newNode]\<rparr>;
          st3 = snd (addConnectionLine st2 parentN newNode)
      in st3\<lparr>connectionSerial := connectionSerial st3 + 1\<rparr>)"

definition branch_parent ::
  "real \<times> real \<Rightarrow> opts \<Rightarrow> nat \<Rightarrow> build_state \<Rightarrow> nat \<Rightarrow> build_state" where
  "branch_parent center op lev st parentN =
     foldl (branch_child center op lev parentN) st [0..<childrenPerNode op]"

definition build_level ::
  "real \<times> real \<Rightarrow> opts \<Rightarrow> nat \<Rightarrow> build_state \<Rightarrow> nat \<Rightarrow> build_state" where
  \<comment> \<open>One round of the loop over \<open>level\<close>; \<open>nodes[level] = levelNodes\<close> extends
      \<open>nodes\<close>, whose length is \<open>level\<close> at that point.\<close>
  "build_level center op centerNode st lev =
     (let parentNodes = nodes st ! (lev - 1);
          st0 = st\<lparr>levelNodes := []\<rparr>;
          st1 = (if lev = 1
                 then (let childCount = initialLines op;
                           angleStep = (if childCount > 0 then 360 / real childCount else 0)
                       in foldl (level1_child center op centerNode angleStep) st0 [0..<childCount])
                 else foldl (branch_parent center op lev) st0 parentNodes)
      in st1\<lparr>nodes := nodes st1 @ [levelNodes st1]\<rparr>)"

definition builderRng :: "opts \<Rightarrow> int" where
  \<comment> \<open>\<open>createRng(opts.seed || 1)\<close>\<close>
  "builderRng op = createRng (if seed op \<noteq> 0 then seed op else 1)"

definition build :: "comp \<Rightarrow> opts \<Rightarrow> nat \<times> build_state" where
  \<comment> \<open>\<open>generateStructure\<close> up to the end of its loop over the levels: the address of
      the centre node and the final values of the local variables.\<close>
  "build cmp op =
     (let rng0 = builderRng op;
          center = (width cmp / 2, height cmp / 2);
          st0 = \<lparr> rng = rng0, heap = [], lineInfos = [], nodeSerial = 0,
                  connectionSerial = 0, levelNodes = [], nodes = [] \<rparr>;
          added = addNode st0 center 0 0 0 (nodeSerial st0);
          centerNode = fst added;
          st1 = snd added;
          st2 = st1\<lparr>nodeSerial := nodeSerial st1 + 1, nodes := [[centerNode]]\<rparr>
      in (centerNode, foldl (build_level center op centerNode) st2 [1..<levels op + 1]))"

section \<open>Timeline scheduler\<close>

text \<open>
  The variables the traversal of \<open>applyBranchAnimation\<close> updates: the scheduler's own
  RNG, the two object stores, the queue of node references and \<open>maxTime\<close>. The
  durations come from \<open>opts\<close>, which \<open>generateStructure\<close> always passes with every
  field defined, so the fallbacks to \<open>ANIMATION_DEFAULTS\<close> are never taken.
\<close>

record sched_state =
  srng :: int
  sheap :: "node list"
  slines :: "lineInfo list"
  queue :: "nat list"
  maxTime :: real

definition schedule_line ::
  "opts \<Rightarrow> nat \<Rightarrow> nat \<Rightarrow> sched_state \<Rightarrow> nat \<times> nat \<Rightarrow> sched_state" where
  \<comment> \<open>The body of the loop over \<open>i\<close>: \<open>lineInfo = childLines[i]\<close>.\<close>
  "schedule_line op rootNode current st il =
     (let i = fst il; lineInfo = snd il;
          offset0 = childStagger op * real i;
          drawn = (if randomOffset op > 0
                   then rng_range (- randomOffset op) (randomOffset op) (srng st)
                   else (0, srng st));
          offset1 = offset0 + fst drawn;
          offset = (if current = rootNode \<and> simultaneousRoot op then 0 else offset1);
          lineStart = outTime (sheap st ! current) + offset;
          lineEnd = lineStart + lineDuration op;
          lines' = (slines st)[lineInfo :=
                      (slines st ! lineInfo)\<lparr>startTime := Some lineStart, endTime := Some lineEnd\<rparr>];
          childN = childNode (slines st ! lineInfo);
          aStart = (if smoothFlow op then lineStart else lineEnd);
          aEnd = (if smoothFlow op
                  then (let e = aStart + max (nodeDuration op) (1 / 10000)
                        in if e < lineEnd then lineEnd else e)
                  else aStart + nodeDuration op);
          heap' = (sheap st)[childN :=
                     (sheap st ! childN)\<lparr>animStart := aStart, inTime := aStart,
                                            animEnd := aEnd, outTime := aEnd\<rparr>];
          maxTime' = (if aEnd > maxTime st then aEnd else maxTime st)
      in \<lparr> srng = snd drawn, sheap = heap', slines = lines',
           queue = queue st @ [childN], maxTime = maxTime' \<rparr>)"

definition process_node :: "opts \<Rightarrow> nat \<Rightarrow> nat \<Rightarrow> sched_state \<Rightarrow> sched_state" where
  \<comment> \<open>The loop over the child lines of the node just taken from the queue.\<close>
  "process_node op rootNode current st =
     foldl (schedule_line op rootNode current) st
       (enumerate 0 (children (sheap st ! current)))"

partial_function (option) bfs_loop :: "opts \<Rightarrow> nat \<Rightarrow> sched_state \<Rightarrow> sched_state option" where
  "bfs_loop op rootNode st =
     (case queue st of
        [] \<Rightarrow> Some st
      | current # rest \<Rightarrow> bfs_loop op rootNode (process_node op rootNode current (st\<lparr>queue := rest\<rparr>)))"

definition schedulerRng :: "opts \<Rightarrow> int" where
  \<comment> \<open>\<open>createRng(opts && opts.seed ? opts.seed * 17 + 53 : 123987)\<close>\<close>
  "schedulerRng op = createRng (if seed op \<noteq> 0 then seed op * 17 + 53 else 123987)"

definition schedule :: "opts \<Rightarrow> nat \<Rightarrow> node list \<Rightarrow> lineInfo list \<Rightarrow> sched_state option" where
  \<comment> \<open>\<open>applyBranchAnimation\<close> up to the end of the traversal.\<close>
  "schedule op rootNode hp lns =
     (let rng0 = schedulerRng op;
          root = (hp ! rootNode)\<lparr>inTime := 0, animStart := 0,
                                   animEnd := 0 + nodeDuration op, outTime := 0 + nodeDuration op\<rparr>
      in bfs_loop op rootNode
           \<lparr> srng = rng0, sheap = hp[rootNode := root], slines = lns,
             queue = [rootNode], maxTime = outTime root \<rparr>)"

definition normalizer :: "opts \<Rightarrow> real \<Rightarrow> real" where
  \<comment> \<open>The guard on \<open>maxTime\<close> after the traversal.\<close>
  "normalizer op m = (if m \<le> 0 then (if nodeDuration op > 0 then nodeDuration op else 1) else m)"

definition lineProgress :: "lineInfo \<Rightarrow> real \<Rightarrow> (real \<times> real) option" where
  \<comment> \<open>\<open>startProgress\<close> and \<open>endProgress\<close> of \<open>setLineAnimationExpression\<close>; there is
      no number to give while the times are undefined.\<close>
  "lineProgress l totalDuration =
     (case (startTime l, endTime l) of
        (Some s, Some e) \<Rightarrow>
          Some (if totalDuration > 0 then (s / totalDuration) * 100 else 0,
                if totalDuration > 0 then (e / totalDuration) * 100 else 100)
      | _ \<Rightarrow> None)"

definition nodeProgress :: "node \<Rightarrow> real \<Rightarrow> real \<times> real" where
  \<comment> \<open>\<open>startProgress\<close> and \<open>endProgress\<close> of \<open>setNodeAnimationExpression\<close>.\<close>
  "nodeProgress n totalDuration =
     (if totalDuration > 0 then (animStart n / totalDuration) * 100 else 0,
      if totalDuration > 0 then (animEnd n / totalDuration) * 100 else 100)"

record animation =
  finalNodes :: "node list"
  finalLines :: "lineInfo list"
  levelTable :: "nat list list"
  totalDuration :: real
  lineWindows :: "(real \<times> real) option list"
  nodeWindows :: "(real \<times> real) list list"

definition applyBranchAnimation ::
  "opts \<Rightarrow> nat \<Rightarrow> nat list list \<Rightarrow> node list \<Rightarrow> lineInfo list \<Rightarrow> animation option" where
  "applyBranchAnimation op rootNode nodeLevels hp lns =
     (case schedule op rootNode hp lns of
        None \<Rightarrow> None
      | Some st \<Rightarrow>
          (let m = normalizer op (maxTime st)
           in Some \<lparr> finalNodes = sheap st, finalLines = slines st, levelTable = nodeLevels,
                     totalDuration = m,
                     lineWindows = map (\<lambda>l. lineProgress l m) (slines st),
                     nodeWindows = map (map (\<lambda>a. nodeProgress (sheap st ! a) m)) nodeLevels \<rparr>))"

definition generateStructure :: "comp \<Rightarrow> opts \<Rightarrow> animation option" where
  \<comment> \<open>\<open>reorderGeneratedLayers\<close> only moves host layers and is left out.\<close>
  "generateStructure cmp op =
     (let built = build cmp op;
          centerNode = fst built;
          st = snd built
      in applyBranchAnimation op centerNode (nodes st) (heap st) (lineInfos st))"

section \<open>Shape of the generated graph\<close>

text \<open>
  The scheduler reads two things of the graph: the \<open>children\<close> array of every node
  (the table \<open>C\<close>, indexed by node address) and the \<open>childNode\<close> of every connection
  line (the table \<open>D\<close>, indexed by line address). \<open>firstLine C k\<close> counts the lines
  held by the nodes before \<open>k\<close>. \<open>tree_shape\<close> states what the builder guarantees:
  line \<open>j\<close> leads to node \<open>j + 1\<close>, the \<open>children\<close> arrays taken in node order list
  the lines in order, and every node but the first is reached by a line of an earlier
  node.
\<close>

definition firstLine :: "nat list list \<Rightarrow> nat \<Rightarrow> nat" where
  "firstLine C k = length (concat (take k C))"

definition tree_shape :: "nat list list \<Rightarrow> nat list \<Rightarrow> bool" where
  "tree_shape C D \<longleftrightarrow>
     length C = Suc (length D) \<and> D = map Suc [0..<length D] \<and>
     concat C = [0..<length D] \<and> (\<forall>k<length C. k \<le> firstLine C k)"

definition builder_inv :: "nat \<Rightarrow> build_state \<Rightarrow> bool" where
  \<comment> \<open>What holds between two steps of the builder: the graph has the tree shape, every
      node but the centre knows its incoming line, the nodes from address \<open>q\<close> on have no
      children yet, and the level table holds allocated addresses only.\<close>
  "builder_inv q st \<longleftrightarrow>
     tree_shape (map children (heap st)) (map childNode (lineInfos st)) \<and>
     map incomingLine (heap st) = None # map Some [0..<length (lineInfos st)] \<and>
     (\<forall>k. q \<le> k \<and> k < length (heap st) \<longrightarrow> children (heap st ! k) = []) \<and>
     (\<forall>lv\<in>set (nodes st). \<forall>a\<in>set lv. a < length (heap st))"

definition sched_inv :: "nat list list \<Rightarrow> nat list \<Rightarrow> nat \<Rightarrow> sched_state \<Rightarrow> bool" where
  \<comment> \<open>What holds at the head of the scheduler's \<open>while\<close> loop once \<open>k\<close> nodes have been
      taken from the queue: the graph is unchanged and the queue holds the nodes from
      \<open>k\<close> up to the last one reached by a line of the nodes before \<open>k\<close>.\<close>
  "sched_inv C D k st \<longleftrightarrow>
     map children (sheap st) = C \<and> map childNode (slines st) = D \<and>
     k \<le> length C \<and> queue st = [k..<Suc (firstLine C k)]"

section \<open>Invariants of the traversal\<close>


definition flow_ok :: "opts \<Rightarrow> nat \<Rightarrow> sched_state \<Rightarrow> bool" where
  "flow_ok op n t \<longleftrightarrow>
     (\<forall>j<n. \<exists>s. startTime (slines t ! j) = Some s
        \<and> endTime (slines t ! j) = Some (s + lineDuration op)
        \<and> animStart (sheap t ! Suc j) = (if smoothFlow op then s else s + lineDuration op)
        \<and> animEnd (sheap t ! Suc j)
            = (if smoothFlow op
               then max (s + max (nodeDuration op) (1 / 10000)) (s + lineDuration op)
               else s + lineDuration op + nodeDuration op)
        \<and> outTime (sheap t ! Suc j) = animEnd (sheap t ! Suc j))"

definition drawState :: "opts \<Rightarrow> nat \<Rightarrow> int" where
  "drawState op n = ((\<lambda>g. snd (rng_next g)) ^^ n) (schedulerRng op)"

definition lineOffset :: "opts \<Rightarrow> nat list list \<Rightarrow> nat \<Rightarrow> nat \<Rightarrow> real" where
  "lineOffset op C p j =
     (if p = 0 \<and> simultaneousRoot op then 0
      else childStagger op * real (j - firstLine C p)
           + (if randomOffset op > 0
              then fst (rng_range (- randomOffset op) (randomOffset op) (drawState op j))
              else 0))"

definition offsets_ok :: "opts \<Rightarrow> nat list list \<Rightarrow> nat \<Rightarrow> sched_state \<Rightarrow> bool" where
  "offsets_ok op C n t \<longleftrightarrow>
     srng t = (if randomOffset op > 0 then drawState op n else schedulerRng op) \<and>
     (\<forall>p<length C. \<forall>j\<in>set (C ! p). j < n \<longrightarrow>
        startTime (slines t ! j) = Some (outTime (sheap t ! p) + lineOffset op C p j))"

section \<open>Example configurations\<close>

definition hdComp :: comp where
  "hdComp = \<lparr> width = 1920, height = 1080, displayStartTime = 0 \<rparr>"

definition scenario :: opts where
  \<comment> \<open>The concrete scenario of the specification, the other options at their defaults.\<close>
  "scenario = DEFAULTS\<lparr> seed := 12345, initialLines := 4, levels := 2,
                childrenPerNode := 2, angleJitter := 0, branchSpread := 60 \<rparr>"


definition twoSpokes :: opts where
  "twoSpokes = DEFAULTS\<lparr> initialLines := 2, levels := 1, randomOffset := 0 \<rparr>"


definition rootOnly :: opts where
  "rootOnly = DEFAULTS\<lparr> levels := 0, nodeDuration := 0 \<rparr>"

definition chain :: opts where
  "chain = DEFAULTS\<lparr> initialLines := 1, levels := 2, childrenPerNode := 1 \<rparr>"

section \<open>The RNG\<close>

lemma js_rem_nonneg: "0 \<le> a \<Longrightarrow> js_rem a 2147483647 = a mod 2147483647"
  by (cases "a = 0") (simp_all add: js_rem_def)

lemma js_rem_neg: "a < 0 \<Longrightarrow> js_rem a 2147483647 = - ((- a) mod 2147483647)"
  by (simp add: js_rem_def)

lemma createRng_range: "0 \<le> createRng sd \<and> createRng sd \<le> 2147483646"
proof (cases "0 \<le> sd")
  case True
  have "0 \<le> sd mod 2147483647" "sd mod 2147483647 < 2147483647" by simp_all
  with True show ?thesis
    by (auto simp: createRng_def Let_def js_rem_nonneg)
next
  case False
  have "0 \<le> (- sd) mod 2147483647" "(- sd) mod 2147483647 < 2147483647" by simp_all
  with False show ?thesis
    by (auto simp: createRng_def Let_def js_rem_neg)
qed

lemma createRng_zero_iff:
  "createRng sd = 0 \<longleftrightarrow> sd < 0 \<and> (- sd) mod 2147483647 = 2147483646"
proof (cases "0 \<le> sd")
  case True
  have "0 \<le> sd mod 2147483647" by simp
  with True show ?thesis
    by (auto simp: createRng_def Let_def js_rem_nonneg)
next
  case False
  have "0 \<le> (- sd) mod 2147483647" by simp
  with False show ?thesis
    by (auto simp: createRng_def Let_def js_rem_neg)
qed

lemma rng_next_state:
  assumes "1 \<le> v" "v \<le> 2147483646"
  shows "1 \<le> snd (rng_next v) \<and> snd (rng_next v) \<le> 2147483646"
proof -
  have nonzero: "(v * 16807) mod 2147483647 \<noteq> 0"
  proof
    assume z: "(v * 16807) mod 2147483647 = 0"
    have "v = (v * 16807) * 1407677000 - v * 11017 * 2147483647" by simp
    then have "v mod 2147483647 = ((v * 16807) * 1407677000) mod 2147483647"
      by (metis mod_mult_self4 mult.commute uminus_add_conv_diff mod_mult_self2 diff_conv_add_uminus mult_minus_left)
    also have "\<dots> = (((v * 16807) mod 2147483647) * 1407677000) mod 2147483647"
      by (simp add: mod_mult_left_eq)
    finally have "v mod 2147483647 = 0" using z by simp
    with assms show False by simp
  qed
  have "0 \<le> (v * 16807) mod 2147483647" "(v * 16807) mod 2147483647 < 2147483647"
    by simp_all
  with nonzero have "1 \<le> (v * 16807) mod 2147483647 \<and> (v * 16807) mod 2147483647 \<le> 2147483646"
    by linarith
  with assms show ?thesis
    by (simp add: rng_next_def Let_def js_rem_nonneg)
qed

text \<open>
  C6 (the claim fails on the code at one seed): the seed \<open>-2147483646\<close>, which the
  dialog's seed field accepts, is normalised to the state \<open>0\<close>; the state then stays
  \<open>0\<close>, \<open>next()\<close> returns a negative number and \<open>range(-1, 1)\<close> returns a number
  below \<open>-1\<close>.
\<close>

theorem C6_seed_folds_to_zero:
  "createRng (- 2147483646) = 0
   \<and> snd (rng_next 0) = 0
   \<and> fst (rng_next (createRng (- 2147483646))) < 0
   \<and> fst (rng_range (- 1) 1 (createRng (- 2147483646))) < - 1"
  by (simp add: createRng_def rng_next_def rng_range_def js_rem_def Let_def)

section \<open>Radius\<close>

lemma computeRadius_fl_exact: "computeRadius_fl (\<lambda>x. x) = computeRadius"
  by (intro ext)
     (simp add: computeRadius_fl_def computeRadius_def rng_range_fl_def rng_range_def
        rng_next_fl_def rng_next_def Let_def)

lemma computeRadius_fl_nojitter:
  "radiusJitter op = 0 \<Longrightarrow>
   computeRadius_fl rnd k op g
     = (max 5 (rnd (rnd (baseRadius op + rnd ((real k - 1) * radiusStep op)) + 0)), g)"
  by (simp add: computeRadius_fl_def Let_def)

text \<open>
  C5 (amended). With \<open>radiusJitter = 0\<close> and \<open>radiusStep > 0\<close> the radius never
  decreases from a level to a higher one: \<open>computeRadius(k2) \<ge> computeRadius(k1)\<close> for
  \<open>k2 > k1\<close>. This holds whatever the rounding of the arithmetic, as long as it is
  monotone (finite doubles, no overflow), and so also for exact arithmetic. A strict
  increase is not guaranteed: the floor \<open>Math.max(5, ...)\<close> and the rounding can give
  two levels the same radius.
\<close>

theorem C5_radius_monotone:
  assumes "mono rnd" and "radiusJitter op = 0" and "0 < radiusStep op" and "k1 < k2"
  shows "fst (computeRadius_fl rnd k1 op g) \<le> fst (computeRadius_fl rnd k2 op g)"
proof -
  from assms(4) have "real k1 - 1 \<le> real k2 - 1" by simp
  with assms(3) have "(real k1 - 1) * radiusStep op \<le> (real k2 - 1) * radiusStep op"
    by (simp add: mult_right_mono)
  then have "rnd ((real k1 - 1) * radiusStep op) \<le> rnd ((real k2 - 1) * radiusStep op)"
    by (rule monoD [OF assms(1)])
  then have "baseRadius op + rnd ((real k1 - 1) * radiusStep op)
             \<le> baseRadius op + rnd ((real k2 - 1) * radiusStep op)"
    by simp
  then have "rnd (baseRadius op + rnd ((real k1 - 1) * radiusStep op))
             \<le> rnd (baseRadius op + rnd ((real k2 - 1) * radiusStep op))"
    by (rule monoD [OF assms(1)])
  then have "rnd (baseRadius op + rnd ((real k1 - 1) * radiusStep op)) + 0
             \<le> rnd (baseRadius op + rnd ((real k2 - 1) * radiusStep op)) + 0"
    by simp
  then have "rnd (rnd (baseRadius op + rnd ((real k1 - 1) * radiusStep op)) + 0)
             \<le> rnd (rnd (baseRadius op + rnd ((real k2 - 1) * radiusStep op)) + 0)"
    by (rule monoD [OF assms(1)])
  then show ?thesis
    unfolding computeRadius_fl_nojitter [OF assms(2)] by (simp add: max.coboundedI2)
qed

theorem C5_radius_monotone_witness:
  "mono (\<lambda>x::real. x)
   \<and> radiusJitter (DEFAULTS\<lparr>radiusJitter := 0\<rparr>) = 0
   \<and> 0 < radiusStep (DEFAULTS\<lparr>radiusJitter := 0\<rparr>)
   \<and> (1::nat) < 2
   \<and> fst (computeRadius_fl (\<lambda>x. x) 1 (DEFAULTS\<lparr>radiusJitter := 0\<rparr>) 12345)
        \<le> fst (computeRadius_fl (\<lambda>x. x) 2 (DEFAULTS\<lparr>radiusJitter := 0\<rparr>) 12345)
   \<and> fst (computeRadius_fl (\<lambda>x. x) 1 (DEFAULTS\<lparr>radiusJitter := 0\<rparr>) 12345) = 250
   \<and> fst (computeRadius_fl (\<lambda>x. x) 2 (DEFAULTS\<lparr>radiusJitter := 0\<rparr>) 12345) = 430"
proof -
  have m: "mono (\<lambda>x::real. x)" by (simp add: mono_def)
  have h: "radiusJitter (DEFAULTS\<lparr>radiusJitter := 0\<rparr>) = 0"
    "0 < radiusStep (DEFAULTS\<lparr>radiusJitter := 0\<rparr>)" "(1::nat) < 2"
    by (simp_all add: DEFAULTS_def)
  have v: "fst (computeRadius_fl (\<lambda>x. x) 1 (DEFAULTS\<lparr>radiusJitter := 0\<rparr>) 12345) = 250"
    "fst (computeRadius_fl (\<lambda>x. x) 2 (DEFAULTS\<lparr>radiusJitter := 0\<rparr>) 12345) = 430"
    by (simp_all add: computeRadius_fl_def DEFAULTS_def Let_def)
  show ?thesis
    using C5_radius_monotone [OF m h, of 12345] m h v by simp
qed

lemma computeRadius_fl_floor:
  assumes "rnd 0 = 0" and "rnd 1 = 1" and "rnd 2 = 2"
  shows "fst (computeRadius_fl rnd 1
                (DEFAULTS\<lparr>baseRadius := 1, radiusStep := 1, radiusJitter := 0\<rparr>) g) = 5
       \<and> fst (computeRadius_fl rnd 2
                (DEFAULTS\<lparr>baseRadius := 1, radiusStep := 1, radiusJitter := 0\<rparr>) g) = 5"
  using assms by (simp add: DEFAULTS_def computeRadius_fl_def Let_def)

text \<open>
  C5 as stated fails: with \<open>baseRadius = 1\<close>, \<open>radiusStep = 1\<close> and no jitter (values
  the dialog accepts) the levels 1 and 2 are both clamped to the radius \<open>5\<close>. Every number
  of this computation (\<open>0\<close>, \<open>1\<close>, \<open>2\<close>, \<open>5\<close>) is a double and every operation on them is
  exact, so that the program computes the same two radii (the lemma above
  is the same fact for any rounding that leaves these numbers unchanged).
\<close>

theorem C5_floor_counterexample:
  "radiusJitter (DEFAULTS\<lparr>baseRadius := 1, radiusStep := 1, radiusJitter := 0\<rparr>) = 0
   \<and> 0 < radiusStep (DEFAULTS\<lparr>baseRadius := 1, radiusStep := 1, radiusJitter := 0\<rparr>)
   \<and> 0 < baseRadius (DEFAULTS\<lparr>baseRadius := 1, radiusStep := 1, radiusJitter := 0\<rparr>)
   \<and> fst (computeRadius 1 (DEFAULTS\<lparr>baseRadius := 1, radiusStep := 1, radiusJitter := 0\<rparr>) 12345) = 5
   \<and> fst (computeRadius 2 (DEFAULTS\<lparr>baseRadius := 1, radiusStep := 1, radiusJitter := 0\<rparr>) 12345) = 5
   \<and> \<not> fst (computeRadius 1 (DEFAULTS\<lparr>baseRadius := 1, radiusStep := 1, radiusJitter := 0\<rparr>) 12345)
        < fst (computeRadius 2 (DEFAULTS\<lparr>baseRadius := 1, radiusStep := 1, radiusJitter := 0\<rparr>) 12345)"
  by (simp add: DEFAULTS_def computeRadius_def Let_def)

section \<open>The seed read by the builder and by the scheduler\<close>

lemma computeRadius_seed [simp]: "computeRadius k (op\<lparr>seed := s\<rparr>) = computeRadius k op"
  by (intro ext) (simp add: computeRadius_def)

lemma level1_child_seed [simp]:
  "level1_child c (op\<lparr>seed := s\<rparr>) = level1_child c op"
  by (intro ext) (simp add: level1_child_def)

lemma branch_child_seed [simp]:
  "branch_child c (op\<lparr>seed := s\<rparr>) = branch_child c op"
  by (intro ext) (simp add: branch_child_def)

lemma branch_parent_seed [simp]:
  "branch_parent c (op\<lparr>seed := s\<rparr>) = branch_parent c op"
  by (intro ext) (simp add: branch_parent_def)

lemma build_level_seed [simp]:
  "build_level c (op\<lparr>seed := s\<rparr>) = build_level c op"
  by (intro ext) (simp add: build_level_def Let_def)

text \<open>
  C9. The builder run with seed \<open>0\<close> returns exactly what it returns with seed \<open>1\<close>
  (every node with its id, level, angle, radius, position, parent and child links, and
  every connection line), because its RNG is created from \<open>seed || 1\<close>. The scheduler's
  RNG for seed \<open>0\<close> is created from the constant \<open>123987\<close>, which is another state
  than the one \<open>0 * 17 + 53\<close> would give.
\<close>

theorem C9_seed_zero_builds_as_seed_one:
  "build cmp (op\<lparr>seed := 0\<rparr>) = build cmp (op\<lparr>seed := 1\<rparr>)
   \<and> schedulerRng (op\<lparr>seed := 0\<rparr>) = createRng 123987
   \<and> createRng 123987 \<noteq> createRng (0 * 17 + 53)"
  by (simp add: build_def builderRng_def schedulerRng_def createRng_def js_rem_def)

section \<open>Lists of child lines\<close>

lemma firstLine_0 [simp]: "firstLine C 0 = 0"
  by (simp add: firstLine_def)

lemma firstLine_Suc: "k < length C \<Longrightarrow> firstLine C (Suc k) = firstLine C k + length (C ! k)"
  by (simp add: firstLine_def take_Suc_conv_app_nth)

lemma firstLine_all: "length C \<le> k \<Longrightarrow> firstLine C k = length (concat C)"
  by (simp add: firstLine_def)

lemma firstLine_mono: "k \<le> k' \<Longrightarrow> firstLine C k \<le> firstLine C k'"
proof -
  assume "k \<le> k'"
  then have "take k' C = take k C @ take (k' - k) (drop k C)"
    by (metis le_add_diff_inverse take_add)
  then show ?thesis by (simp add: firstLine_def)
qed

lemma concat_split_nth:
  "k < length C \<Longrightarrow> concat C = concat (take k C) @ C ! k @ concat (drop (Suc k) C)"
  by (metis append_take_drop_id concat.simps(2) concat_append Cons_nth_drop_Suc)

lemma children_range:
  assumes "concat C = [0..<L]" and "k < length C"
  shows "C ! k = [firstLine C k..<firstLine C (Suc k)]"
proof -
  let ?a = "firstLine C k"
  let ?n = "length (C ! k)"
  have split: "[0..<L] = concat (take k C) @ (C ! k @ concat (drop (Suc k) C))"
    using concat_split_nth [OF assms(2)] assms(1) by simp
  have "C ! k = take ?n (drop ?a [0..<L])"
    by (metis split append_eq_conv_conj firstLine_def)
  moreover have "?a + ?n \<le> L"
    using arg_cong [OF split, of length] by (simp add: firstLine_def)
  ultimately have "C ! k = [?a..<?a + ?n]"
    by (simp add: drop_upt take_upt)
  then show ?thesis
    by (simp only: firstLine_Suc [OF assms(2)])
qed

lemma concat_update:
  "p < length C \<Longrightarrow> concat (C[p := x]) = concat (take p C) @ x @ concat (drop (Suc p) C)"
  by (simp add: upd_conv_take_nth_drop)

lemma concat_childless:
  assumes "\<forall>k. p < k \<and> k < length C \<longrightarrow> C ! k = []"
  shows "concat (drop (Suc p) C) = []"
proof -
  have "\<forall>x\<in>set (drop (Suc p) C). x = []"
  proof
    fix x assume "x \<in> set (drop (Suc p) C)"
    then obtain i where "i < length (drop (Suc p) C)" "x = drop (Suc p) C ! i"
      by (auto simp: in_set_conv_nth)
    with assms show "x = []" by simp
  qed
  then show ?thesis by simp
qed

lemma length_concat_grow:
  assumes "p < length xs"
  shows "length (concat (xs[p := xs ! p @ [x]])) = Suc (length (concat xs))"
proof -
  have "length (concat xs)
        = length (concat (take p xs)) + length (xs ! p) + length (concat (drop (Suc p) xs))"
    using arg_cong [OF concat_split_nth [OF assms], of length] by simp
  then show ?thesis using assms by (simp add: concat_update)
qed

lemma firstLine_attach_before:
  "k \<le> p \<Longrightarrow> p < length C \<Longrightarrow> firstLine (C[p := y] @ ys) k = firstLine C k"
  by (simp add: firstLine_def)

lemma firstLine_attach_after:
  assumes "p < k" and "k \<le> length C"
  shows "firstLine (C[p := C ! p @ [x]] @ ys) k = Suc (firstLine C k)"
proof -
  have "take k (C[p := C ! p @ [x]] @ ys) = (take k C)[p := take k C ! p @ [x]]"
    using assms by (simp add: take_update_swap)
  moreover have "p < length (take k C)" using assms by simp
  ultimately show ?thesis
    by (simp only: firstLine_def length_concat_grow)
qed

lemma tree_shape_attach:
  assumes "tree_shape C D" and "p < length C"
    and "\<forall>k. p < k \<and> k < length C \<longrightarrow> C ! k = []"
  shows "tree_shape (C[p := C ! p @ [length D]] @ [[]]) (D @ [length C])"
proof -
  let ?L = "length D"
  let ?C' = "C[p := C ! p @ [?L]] @ [[]]"
  from assms(1) have len: "length C = Suc ?L" and D: "D = map Suc [0..<?L]"
    and cat: "concat C = [0..<?L]" and reach: "\<forall>k<length C. k \<le> firstLine C k"
    by (simp_all add: tree_shape_def)
  have tail: "concat (drop (Suc p) C) = []" by (rule concat_childless [OF assms(3)])
  have "concat C = concat (take p C) @ C ! p" 
    using concat_split_nth [OF assms(2)] tail by simp
  then have c1: "concat ?C' = [0..<Suc ?L]"
    using assms(2) tail cat by (simp add: concat_update)
  have c2: "D @ [length C] = map Suc [0..<Suc ?L]"
    using D len by simp
  have c3: "\<forall>k<length ?C'. k \<le> firstLine ?C' k"
  proof (intro allI impI)
    fix k assume k: "k < length ?C'"
    show "k \<le> firstLine ?C' k"
    proof (cases "k \<le> p")
      case True
      then show ?thesis using reach assms(2) by (simp add: firstLine_attach_before)
    next
      case False
      then have pk: "p < k" by simp
      from k have kC: "k \<le> length C" by simp
      show ?thesis
      proof (cases "k < length C")
        case True
        with reach have "k \<le> firstLine C k" by simp
        then show ?thesis by (simp add: firstLine_attach_after [OF pk kC])
      next
        case False
        with kC have "k = length C" by simp
        then have "firstLine C k = ?L" using cat by (simp add: firstLine_all)
        moreover have "firstLine ?C' k = Suc (firstLine C k)"
          by (rule firstLine_attach_after [OF pk kC])
        ultimately show ?thesis using \<open>k = length C\<close> len by linarith
      qed
    qed
  qed
  show ?thesis
    unfolding tree_shape_def using c1 c2 c3 len by simp
qed

section \<open>One step of the builder\<close>

lemma map_update_same: "(map f xs)[p := f (xs ! p)] = map f xs"
  by (cases "p < length xs") (simp_all add: list_eq_iff_nth_eq nth_list_update)

lemma attach_children:
  assumes "p < length (heap st)" and "n = length (heap st)"
  shows "map children (heap (snd (addConnectionLine
            ((snd (addNode st pos ang rad lev i))\<lparr>nodeSerial := ns, levelNodes := lv\<rparr>)
            p n)))
         = (map children (heap st))[p := children (heap st ! p) @ [length (lineInfos st)]] @ [[]]"
  using assms
  by (simp add: addConnectionLine_def addNode_def Let_def map_update nth_append
      list_update_append nth_list_update map_update_same)

lemma attach_incoming:
  assumes "p < length (heap st)" and "n = length (heap st)"
  shows "map incomingLine (heap (snd (addConnectionLine
            ((snd (addNode st pos ang rad lev i))\<lparr>nodeSerial := ns, levelNodes := lv\<rparr>)
            p n)))
         = map incomingLine (heap st) @ [Some (length (lineInfos st))]"
  using assms
  by (simp add: addConnectionLine_def addNode_def Let_def map_update nth_append
      list_update_append nth_list_update map_update_same)

lemma attach_lines:
  "n = length (heap st) \<Longrightarrow> map childNode (lineInfos (snd (addConnectionLine
            ((snd (addNode st pos ang rad lev i))\<lparr>nodeSerial := ns, levelNodes := lv\<rparr>)
            p n)))
         = map childNode (lineInfos st) @ [length (heap st)]"
  by (simp add: addConnectionLine_def addNode_def Let_def)

lemma attach_rest:
  "levelNodes (snd (addConnectionLine
            ((snd (addNode st pos ang rad lev i))\<lparr>nodeSerial := ns, levelNodes := lv\<rparr>)
            p c)) = lv"
  "nodes (snd (addConnectionLine
            ((snd (addNode st pos ang rad lev i))\<lparr>nodeSerial := ns, levelNodes := lv\<rparr>)
            p c)) = nodes st"
  "fst (addNode st pos ang rad lev i) = length (heap st)"
  by (simp_all add: addConnectionLine_def addNode_def Let_def)

lemma addNode_fields:
  "fst (addNode st pos ang rad lev i) = length (heap st)"
  "rng (snd (addNode st pos ang rad lev i)) = rng st"
  "lineInfos (snd (addNode st pos ang rad lev i)) = lineInfos st"
  "nodeSerial (snd (addNode st pos ang rad lev i)) = nodeSerial st"
  "connectionSerial (snd (addNode st pos ang rad lev i)) = connectionSerial st"
  "levelNodes (snd (addNode st pos ang rad lev i)) = levelNodes st"
  "nodes (snd (addNode st pos ang rad lev i)) = nodes st"
  "length (heap (snd (addNode st pos ang rad lev i))) = Suc (length (heap st))"
  by (simp_all add: addNode_def)

lemma level1_child_effect:
  assumes "p < length (heap st)"
  shows "map children (heap (level1_child c op p a st i))
           = (map children (heap st))[p := children (heap st ! p) @ [length (lineInfos st)]] @ [[]]"
    and "map incomingLine (heap (level1_child c op p a st i))
           = map incomingLine (heap st) @ [Some (length (lineInfos st))]"
    and "map childNode (lineInfos (level1_child c op p a st i))
           = map childNode (lineInfos st) @ [length (heap st)]"
    and "levelNodes (level1_child c op p a st i) = levelNodes st @ [length (heap st)]"
    and "nodes (level1_child c op p a st i) = nodes st"
  using assms
  by (simp_all add: level1_child_def Let_def attach_children attach_incoming attach_lines
      attach_rest addNode_fields split del: if_split)

lemma branch_child_effect:
  assumes "p < length (heap st)"
  shows "map children (heap (branch_child c op lev p st i))
           = (map children (heap st))[p := children (heap st ! p) @ [length (lineInfos st)]] @ [[]]"
    and "map incomingLine (heap (branch_child c op lev p st i))
           = map incomingLine (heap st) @ [Some (length (lineInfos st))]"
    and "map childNode (lineInfos (branch_child c op lev p st i))
           = map childNode (lineInfos st) @ [length (heap st)]"
    and "levelNodes (branch_child c op lev p st i) = levelNodes st @ [length (heap st)]"
    and "nodes (branch_child c op lev p st i) = nodes st"
  using assms
  by (simp_all add: branch_child_def Let_def attach_children attach_incoming attach_lines
      attach_rest addNode_fields split del: if_split)

section \<open>Number of nodes\<close>

lemma attach_length:
  "length (heap (snd (addConnectionLine st p n))) = length (heap st)"
  by (simp add: addConnectionLine_def Let_def)

lemma level1_child_count:
  "length (heap (level1_child c op p a st i)) = Suc (length (heap st))"
  "length (levelNodes (level1_child c op p a st i)) = Suc (length (levelNodes st))"
  "nodes (level1_child c op p a st i) = nodes st"
  by (simp_all add: level1_child_def Let_def attach_length attach_rest addNode_fields
      split del: if_split)

lemma branch_child_count:
  "length (heap (branch_child c op lev p st i)) = Suc (length (heap st))"
  "length (levelNodes (branch_child c op lev p st i)) = Suc (length (levelNodes st))"
  "nodes (branch_child c op lev p st i) = nodes st"
  by (simp_all add: branch_child_def Let_def attach_length attach_rest addNode_fields
      split del: if_split)

lemma level1_loop_count:
  "length (heap (foldl (level1_child c op p a) st [0..<n])) = length (heap st) + n
   \<and> length (levelNodes (foldl (level1_child c op p a) st [0..<n])) = length (levelNodes st) + n
   \<and> nodes (foldl (level1_child c op p a) st [0..<n]) = nodes st"
  by (induction n) (simp_all add: level1_child_count)

lemma branch_parent_count:
  "length (heap (branch_parent c op lev st p)) = length (heap st) + childrenPerNode op
   \<and> length (levelNodes (branch_parent c op lev st p))
       = length (levelNodes st) + childrenPerNode op
   \<and> nodes (branch_parent c op lev st p) = nodes st"
proof -
  have "length (heap (foldl (branch_child c op lev p) st [0..<n])) = length (heap st) + n
   \<and> length (levelNodes (foldl (branch_child c op lev p) st [0..<n])) = length (levelNodes st) + n
   \<and> nodes (foldl (branch_child c op lev p) st [0..<n]) = nodes st"
    for n
    by (induction n) (simp_all add: branch_child_count)
  then show ?thesis by (simp add: branch_parent_def)
qed

lemma branch_loop_count:
  "length (heap (foldl (branch_parent c op lev) st ps))
     = length (heap st) + childrenPerNode op * length ps
   \<and> length (levelNodes (foldl (branch_parent c op lev) st ps))
     = length (levelNodes st) + childrenPerNode op * length ps
   \<and> nodes (foldl (branch_parent c op lev) st ps) = nodes st"
  by (induction ps arbitrary: st) (simp_all add: branch_parent_count)

lemma build_level_count:
  "length (heap (build_level c op p st lev))
     = length (heap st)
       + (if lev = 1 then initialLines op
          else childrenPerNode op * length (nodes st ! (lev - 1)))"
  "\<exists>lv. nodes (build_level c op p st lev) = nodes st @ [lv]
        \<and> length lv = (if lev = 1 then initialLines op
                        else childrenPerNode op * length (nodes st ! (lev - 1)))"
  by (simp_all add: build_level_def Let_def level1_loop_count branch_loop_count)

lemma build_levels_count:
  fixes c op p st0
  defines "run \<equiv> \<lambda>L. foldl (build_level c op p) st0 [1..<L + 1]"
  assumes "length (nodes st0) = 1" and "length (heap st0) = 1"
  shows "length (nodes (run L)) = L + 1
    \<and> (if L = 0 then True
        else length (nodes (run L) ! L) = initialLines op * childrenPerNode op ^ (L - 1))
    \<and> length (heap (run L)) = 1 + initialLines op * (\<Sum>k<L. childrenPerNode op ^ k)"
proof (induction L)
  case 0
  then show ?case using assms by simp
next
  case (Suc L)
  have step: "run (Suc L) = build_level c op p (run L) (Suc L)"
    by (simp add: run_def)
  obtain lv where lv: "nodes (run (Suc L)) = nodes (run L) @ [lv]"
    "length lv = (if Suc L = 1 then initialLines op
                  else childrenPerNode op * length (nodes (run L) ! (Suc L - 1)))"
    using build_level_count(2) [of c op p "run L" "Suc L"] step by auto
  have hp: "length (heap (run (Suc L))) = length (heap (run L))
      + (if Suc L = 1 then initialLines op
         else childrenPerNode op * length (nodes (run L) ! (Suc L - 1)))"
    using build_level_count(1) [of c op p "run L" "Suc L"] step by simp
  show ?case
  proof (cases "L = 0")
    case True
    with Suc lv hp show ?thesis by (simp add: nth_append)
  next
    case False
    then obtain m where m: "L = Suc m" by (cases L) auto
    from False Suc have prev: "length (nodes (run L) ! L) = initialLines op * childrenPerNode op ^ (L - 1)"
      and n: "length (nodes (run L)) = L + 1"
      and h: "length (heap (run L)) = 1 + initialLines op * (\<Sum>k<L. childrenPerNode op ^ k)"
      by simp_all
    have "length lv = initialLines op * childrenPerNode op ^ L"
      using lv(2) prev False m by simp
    moreover have "nodes (run (Suc L)) ! Suc L = lv" using lv(1) n by (simp add: nth_append)
    ultimately show ?thesis
      using lv(1) n hp h prev False m by (simp add: algebra_simps)
  qed
qed

lemma build_count:
  "length (heap (snd (build cmp op)))
     = 1 + initialLines op * (\<Sum>k<levels op. childrenPerNode op ^ k)"
  using build_levels_count [of "\<lparr> rng = builderRng op,
          heap = [\<lparr> id_node = 0, level = 0, angle = 0, radius = 0,
                    position = (width cmp / 2, height cmp / 2),
                    parent = None, children = [], incomingLine = None,
                    inTime = 0, outTime = 0, animStart = 0, animEnd = 0 \<rparr>],
          lineInfos = [], nodeSerial = 1, connectionSerial = 0, levelNodes = [],
          nodes = [[0]] \<rparr>" "(width cmp / 2, height cmp / 2)" op 0 "levels op"]
  by (simp add: build_def Let_def addNode_def)

text \<open>
  C1 (amended). The builder creates \<open>1 + initialLines * (1 + c + ... + c^(levels - 1))\<close>
  nodes, \<open>c\<close> being \<open>childrenPerNode\<close>: the sum runs over \<open>k = 0 .. levels - 1\<close>, one
  term for each of the \<open>levels\<close> rings, for every configuration.
\<close>

theorem C1_node_count:
  "length (heap (snd (build cmp op)))
     = 1 + initialLines op * (\<Sum>k<levels op. childrenPerNode op ^ k)"
  by (rule build_count)

text \<open>
  C1 as stated, with the sum running over \<open>k = 0 .. levels - 2\<close>, fails on the
  specification's own scenario: the builder creates 13 nodes, the formula gives 5.
\<close>

theorem C1_formula_counterexample:
  "1 \<le> initialLines scenario \<and> 1 \<le> levels scenario \<and> 1 \<le> childrenPerNode scenario
   \<and> length (heap (snd (build hdComp scenario))) = 13
   \<and> 1 + initialLines scenario * (\<Sum>k<levels scenario - 1. childrenPerNode scenario ^ k) = 5"
  by (simp add: build_count scenario_def DEFAULTS_def eval_nat_numeral)

section \<open>The builder keeps the tree shape\<close>

lemma builder_inv_mono: "builder_inv q st \<Longrightarrow> q \<le> q' \<Longrightarrow> builder_inv q' st"
  by (auto simp: builder_inv_def)

lemma builder_inv_lengths:
  "builder_inv q st \<Longrightarrow> length (heap st) = Suc (length (lineInfos st))"
  by (auto simp: builder_inv_def tree_shape_def dest: arg_cong [where f = length])

text \<open>Attaching a child to \<open>p\<close> keeps the invariant when the nodes after \<open>p\<close> are childless.\<close>

lemma builder_inv_attach:
  assumes inv: "builder_inv (Suc p) st" and p: "p < length (heap st)"
    and ch: "map children (heap st')
           = (map children (heap st))[p := children (heap st ! p) @ [length (lineInfos st)]] @ [[]]"
    and inc: "map incomingLine (heap st')
           = map incomingLine (heap st) @ [Some (length (lineInfos st))]"
    and ln: "map childNode (lineInfos st') = map childNode (lineInfos st) @ [length (heap st)]"
    and nd: "nodes st' = nodes st"
  shows "builder_inv (Suc p) st'"
proof -
  let ?C = "map children (heap st)" and ?D = "map childNode (lineInfos st)"
  from inv have ts: "tree_shape ?C ?D"
    and il: "map incomingLine (heap st) = None # map Some [0..<length (lineInfos st)]"
    and fr: "\<forall>k. Suc p \<le> k \<and> k < length (heap st) \<longrightarrow> children (heap st ! k) = []"
    and tb: "\<forall>lv\<in>set (nodes st). \<forall>a\<in>set lv. a < length (heap st)"
    by (simp_all add: builder_inv_def)
  have len': "length (heap st') = Suc (length (heap st))"
    using arg_cong [OF inc, of length] by simp
  have llen': "length (lineInfos st') = Suc (length (lineInfos st))"
    using arg_cong [OF ln, of length] by simp
  have "tree_shape (?C[p := ?C ! p @ [length ?D]] @ [[]]) (?D @ [length ?C])"
  proof (rule tree_shape_attach [OF ts])
    show "p < length ?C" using p by simp
    show "\<forall>k. p < k \<and> k < length ?C \<longrightarrow> ?C ! k = []" using fr by simp
  qed
  then have a: "tree_shape (map children (heap st')) (map childNode (lineInfos st'))"
    using ch ln p by simp
  have b: "map incomingLine (heap st') = None # map Some [0..<length (lineInfos st')]"
    using inc il llen' by simp
  have c: "\<forall>k. Suc p \<le> k \<and> k < length (heap st') \<longrightarrow> children (heap st' ! k) = []"
  proof (intro allI impI)
    fix k assume k: "Suc p \<le> k \<and> k < length (heap st')"
    then have "map children (heap st') ! k = []"
      using fr p len' unfolding ch by (auto simp: nth_append)
    with k show "children (heap st' ! k) = []" by simp
  qed
  have d: "\<forall>lv\<in>set (nodes st'). \<forall>a\<in>set lv. a < length (heap st')"
    using tb nd len' by (auto simp: less_Suc_eq)
  show ?thesis unfolding builder_inv_def using a b c d by simp
qed

lemma level1_child_inv:
  assumes "builder_inv (Suc p) st" and "p < length (heap st)"
    and "levelNodes st = [b..<length (heap st)]" and "b \<le> length (heap st)"
  shows "builder_inv (Suc p) (level1_child c op p a st i)"
    and "levelNodes (level1_child c op p a st i) = [b..<length (heap (level1_child c op p a st i))]"
    and "length (heap (level1_child c op p a st i)) = Suc (length (heap st))"
  using assms
  by (auto intro: builder_inv_attach simp: level1_child_effect level1_child_count)

lemma branch_child_inv:
  assumes "builder_inv (Suc p) st" and "p < length (heap st)"
    and "levelNodes st = [b..<length (heap st)]" and "b \<le> length (heap st)"
  shows "builder_inv (Suc p) (branch_child c op lev p st i)"
    and "levelNodes (branch_child c op lev p st i)
           = [b..<length (heap (branch_child c op lev p st i))]"
    and "length (heap (branch_child c op lev p st i)) = Suc (length (heap st))"
  using assms
  by (auto intro: builder_inv_attach simp: branch_child_effect branch_child_count)


lemma builder_inv_levelNodes [simp]:
  "builder_inv q (st\<lparr>levelNodes := x\<rparr>) = builder_inv q st"
  by (simp add: builder_inv_def)

lemma level1_loop_inv:
  assumes "builder_inv (Suc p) st" and "p < length (heap st)"
    and "levelNodes st = [b..<length (heap st)]" and "b \<le> length (heap st)"
  shows "builder_inv (Suc p) (foldl (level1_child c op p a) st [0..<n])
    \<and> levelNodes (foldl (level1_child c op p a) st [0..<n])
        = [b..<length (heap (foldl (level1_child c op p a) st [0..<n]))]
    \<and> length (heap st) \<le> length (heap (foldl (level1_child c op p a) st [0..<n]))"
proof (induction n)
  case 0
  then show ?case using assms by simp
next
  case (Suc n)
  let ?s = "foldl (level1_child c op p a) st [0..<n]"
  from Suc have "builder_inv (Suc p) ?s" "levelNodes ?s = [b..<length (heap ?s)]"
    "length (heap st) \<le> length (heap ?s)" by simp_all
  moreover from this assms have "p < length (heap ?s)" "b \<le> length (heap ?s)" by simp_all
  ultimately show ?case
    using level1_child_inv [of p ?s b c op a n] by simp
qed

lemma branch_parent_inv:
  assumes "builder_inv (Suc p) st" and "p < length (heap st)"
    and "levelNodes st = [b..<length (heap st)]" and "b \<le> length (heap st)"
  shows "builder_inv (Suc p) (branch_parent c op lev st p)
    \<and> levelNodes (branch_parent c op lev st p)
        = [b..<length (heap (branch_parent c op lev st p))]
    \<and> length (heap st) \<le> length (heap (branch_parent c op lev st p))"
proof -
  have "builder_inv (Suc p) (foldl (branch_child c op lev p) st [0..<n])
    \<and> levelNodes (foldl (branch_child c op lev p) st [0..<n])
        = [b..<length (heap (foldl (branch_child c op lev p) st [0..<n]))]
    \<and> length (heap st) \<le> length (heap (foldl (branch_child c op lev p) st [0..<n]))" for n
  proof (induction n)
    case 0
    then show ?case using assms by simp
  next
    case (Suc n)
    let ?s = "foldl (branch_child c op lev p) st [0..<n]"
    from Suc have "builder_inv (Suc p) ?s" "levelNodes ?s = [b..<length (heap ?s)]"
      "length (heap st) \<le> length (heap ?s)" by simp_all
    moreover from this assms have "p < length (heap ?s)" "b \<le> length (heap ?s)" by simp_all
    ultimately show ?case
      using branch_child_inv [of p ?s b c op lev n] by simp
  qed
  then show ?thesis by (simp add: branch_parent_def)
qed

lemma branch_loop_inv:
  assumes inv: "builder_inv b0 st" and lv: "levelNodes st = [b..<length (heap st)]"
    and b: "b \<le> length (heap st)" and be: "b0 \<le> e" and e: "e \<le> length (heap st)"
  shows "builder_inv e (foldl (branch_parent c op lev) st [b0..<e])
    \<and> levelNodes (foldl (branch_parent c op lev) st [b0..<e])
        = [b..<length (heap (foldl (branch_parent c op lev) st [b0..<e]))]
    \<and> length (heap st) \<le> length (heap (foldl (branch_parent c op lev) st [b0..<e]))"
  using be e
proof (induction e rule: dec_induct)
  case base
  then show ?case using inv lv by simp
next
  case (step n)
  let ?s = "foldl (branch_parent c op lev) st [b0..<n]"
  from step have "builder_inv n ?s" and l: "levelNodes ?s = [b..<length (heap ?s)]"
    and g: "length (heap st) \<le> length (heap ?s)" by simp_all
  then have "builder_inv (Suc n) ?s" by (auto intro: builder_inv_mono)
  moreover have "n < length (heap ?s)" "b \<le> length (heap ?s)" using step g b by simp_all
  ultimately show ?case
    using branch_parent_inv [of n ?s b c op lev] l g step(1) by simp
qed

lemma build_level_inv:
  assumes lev: "0 < lev" and n: "length (nodes st) = lev"
    and tab: "nodes st ! (lev - 1) = [b..<length (heap st)]" and b: "b \<le> length (heap st)"
    and inv: "builder_inv b st"
    and first: "lev = 1 \<longrightarrow> length (heap st) = Suc p"
  shows "length (nodes (build_level c op p st lev)) = Suc lev
    \<and> nodes (build_level c op p st lev) ! lev
        = [length (heap st)..<length (heap (build_level c op p st lev))]
    \<and> length (heap st) \<le> length (heap (build_level c op p st lev))
    \<and> builder_inv (length (heap st)) (build_level c op p st lev)"
proof -
  let ?N = "length (heap st)"
  let ?st0 = "st\<lparr>levelNodes := []\<rparr>"
  define st1 where "st1 =
     (if lev = 1
      then foldl (level1_child c op p (if initialLines op > 0 then 360 / real (initialLines op) else 0))
             ?st0 [0..<initialLines op]
      else foldl (branch_parent c op lev) ?st0 (nodes st ! (lev - 1)))"
  have res: "build_level c op p st lev = st1\<lparr>nodes := nodes st1 @ [levelNodes st1]\<rparr>"
    by (simp add: build_level_def st1_def Let_def)
  have st1: "builder_inv ?N st1 \<and> levelNodes st1 = [?N..<length (heap st1)]
             \<and> ?N \<le> length (heap st1) \<and> nodes st1 = nodes st"
  proof (cases "lev = 1")
    case True
    with first have N: "?N = Suc p" by simp
    have "builder_inv (Suc p) ?st0" using inv b N by (auto intro: builder_inv_mono)
    then show ?thesis
      using level1_loop_inv [of p ?st0 ?N c op _ "initialLines op"] N True
      by (simp add: st1_def level1_loop_count)
  next
    case False
    have "builder_inv b ?st0" using inv by simp
    then show ?thesis
      using branch_loop_inv [of b ?st0 ?N ?N c op lev] b tab False
      by (simp add: st1_def branch_loop_count)
  qed
  then have "builder_inv ?N (st1\<lparr>nodes := nodes st1 @ [levelNodes st1]\<rparr>)"
    by (auto simp: builder_inv_def)
  with st1 show ?thesis
    using n by (simp add: res nth_append)
qed


lemma build_levels_inv:
  fixes c op st0
  defines "run \<equiv> \<lambda>L. foldl (build_level c op 0) st0 [1..<L + 1]"
  assumes "nodes st0 = [[0]]" and "length (heap st0) = 1" and "builder_inv 0 st0"
  shows "length (nodes (run L)) = L + 1
    \<and> (\<exists>b\<le>length (heap (run L)).
          nodes (run L) ! L = [b..<length (heap (run L))] \<and> builder_inv b (run L))
    \<and> (if L = 0 then length (heap (run L)) = 1 else True)"
proof (induction L)
  case 0
  have "[0::nat] = [0..<1]" by simp
  then show ?case using assms by (auto simp del: upt_Suc)
next
  case (Suc L)
  have step: "run (Suc L) = build_level c op 0 (run L) (Suc L)"
    by (simp add: run_def)
  from Suc obtain b where b: "b \<le> length (heap (run L))"
    "nodes (run L) ! L = [b..<length (heap (run L))]" "builder_inv b (run L)"
    and n: "length (nodes (run L)) = Suc L"
    and first: "L = 0 \<longrightarrow> length (heap (run L)) = 1"
    by (auto split: if_splits)
  have "length (nodes (run (Suc L))) = Suc (Suc L)
    \<and> nodes (run (Suc L)) ! Suc L
        = [length (heap (run L))..<length (heap (run (Suc L)))]
    \<and> length (heap (run L)) \<le> length (heap (run (Suc L)))
    \<and> builder_inv (length (heap (run L))) (run (Suc L))"
    unfolding step
    using build_level_inv [of "Suc L" "run L" b 0 c op] b n first by simp
  then show ?case by auto
qed

lemma build_inv:
  "fst (build cmp op) = 0 \<and> (\<exists>b. builder_inv b (snd (build cmp op)))"
proof -
  let ?st2 = "\<lparr> rng = builderRng op,
          heap = [\<lparr> id_node = 0, level = 0, angle = 0, radius = 0,
                    position = (width cmp / 2, height cmp / 2),
                    parent = None, children = [], incomingLine = None,
                    inTime = 0, outTime = 0, animStart = 0, animEnd = 0 \<rparr>],
          lineInfos = [], nodeSerial = 1, connectionSerial = 0, levelNodes = [],
          nodes = [[0]] \<rparr>"
  have "builder_inv 0 ?st2"
    by (simp add: builder_inv_def tree_shape_def)
  then show ?thesis
    using build_levels_inv [of ?st2 "(width cmp / 2, height cmp / 2)" op "levels op"]
    by (auto simp: build_def Let_def addNode_def)
qed

section \<open>The traversal visits the lines in order\<close>

lemma schedule_line_shape:
  "map children (sheap (schedule_line op r cur st il)) = map children (sheap st)"
  "map incomingLine (sheap (schedule_line op r cur st il)) = map incomingLine (sheap st)"
  "map childNode (slines (schedule_line op r cur st il)) = map childNode (slines st)"
  "queue (schedule_line op r cur st il) = queue st @ [childNode (slines st ! snd il)]"
  by (simp_all add: schedule_line_def Let_def map_update map_update_same)

lemma foldl_enumerate_rule:
  assumes "Q 0 s"
    and "\<And>i t. i < length ls \<Longrightarrow> Q i t \<Longrightarrow> Q (Suc i) (f t (i, ls ! i))"
  shows "Q (length ls) (foldl f s (enumerate 0 ls))"
  using assms(2)
proof (induction ls rule: rev_induct)
  case Nil
  then show ?case using assms(1) by simp
next
  case (snoc x xs)
  have "Q (length xs) (foldl f s (enumerate 0 xs))"
  proof (rule snoc.IH)
    fix i t assume "i < length xs" "Q i t"
    then show "Q (Suc i) (f t (i, xs ! i))"
      using snoc.prems [of i t] by (simp add: nth_append)
  qed
  then have "Q (Suc (length xs)) (f (foldl f s (enumerate 0 xs)) (length xs, x))"
    using snoc.prems [of "length xs"] by simp
  then show ?case by (simp add: enumerate_append_eq)
qed

lemma tree_shape_facts:
  assumes "tree_shape C D" and "k < length C"
  shows "C ! k = [firstLine C k..<firstLine C (Suc k)]"
    and "k \<le> firstLine C k"
    and "firstLine C (Suc k) \<le> length D"
    and "firstLine C k \<le> firstLine C (Suc k)"
    and "length C = Suc (length D)"
    and "\<And>j. j < length D \<Longrightarrow> D ! j = Suc j"
proof -
  from assms(1) have len: "length C = Suc (length D)" and D: "D = map Suc [0..<length D]"
    and cat: "concat C = [0..<length D]" and reach: "\<forall>k<length C. k \<le> firstLine C k"
    by (simp_all add: tree_shape_def)
  show "C ! k = [firstLine C k..<firstLine C (Suc k)]"
    by (rule children_range [OF cat assms(2)])
  show "k \<le> firstLine C k" using reach assms(2) by simp
  have "firstLine C (Suc k) \<le> firstLine C (length C)" using assms(2) by (simp add: firstLine_mono)
  then show "firstLine C (Suc k) \<le> length D" using cat by (simp add: firstLine_all)
  show "firstLine C k \<le> firstLine C (Suc k)" by (simp add: firstLine_mono)
  show "length C = Suc (length D)" by (rule len)
  show "D ! j = Suc j" if "j < length D" for j
  proof -
    have "D ! j = map Suc [0..<length D] ! j" using D by simp
    then show ?thesis using that by simp
  qed
qed

lemma process_node_rule:
  assumes ts: "tree_shape C D" and inv: "sched_inv C D k s" and k: "k < length C"
    and init: "Q 0 (s\<lparr>queue := tl (queue s)\<rparr>)"
    and step: "\<And>i t. i < length (C ! k) \<Longrightarrow> Q i t \<Longrightarrow>
        map children (sheap t) = C \<Longrightarrow> map childNode (slines t) = D \<Longrightarrow>
        k \<le> firstLine C k \<Longrightarrow> firstLine C k + i < length D \<Longrightarrow>
        Q (Suc i) (schedule_line op r k t (i, firstLine C k + i))"
  shows "Q (length (C ! k)) (process_node op r k (s\<lparr>queue := tl (queue s)\<rparr>))
         \<and> sched_inv C D (Suc k) (process_node op r k (s\<lparr>queue := tl (queue s)\<rparr>))"
proof -
  let ?a = "firstLine C k"
  let ?s0 = "s\<lparr>queue := tl (queue s)\<rparr>"
  note f = tree_shape_facts [OF ts k]
  from inv have C: "map children (sheap s) = C" and D: "map childNode (slines s) = D"
    and q: "queue s = [k..<Suc ?a]"
    by (simp_all add: sched_inv_def)
  have "k < length (sheap s)" using C k by (metis length_map)
  then have ck: "children (sheap s ! k) = C ! k"
    using nth_map [of k "sheap s" children] C by simp
  have len: "?a + length (C ! k) = firstLine C (Suc k)"
    using f(1) f(4) by (simp add: firstLine_Suc [OF k])
  define Q' where "Q' i t \<longleftrightarrow> Q i t \<and> map children (sheap t) = C \<and>
      map childNode (slines t) = D \<and> queue t = [Suc k..<Suc (?a + i)]" for i t
  have "Q' (length (C ! k)) (foldl (schedule_line op r k) ?s0 (enumerate 0 (C ! k)))"
  proof (rule foldl_enumerate_rule)
    show "Q' 0 ?s0"
      using init C D q f(2) by (simp add: Q'_def upt_conv_Cons del: upt_Suc)
  next
    fix i t assume i: "i < length (C ! k)" and Q: "Q' i t"
    have nth: "C ! k ! i = ?a + i" using i f(1) by simp
    have li: "?a + i < length D" using i len f(3) by simp
    have "Q (Suc i) (schedule_line op r k t (i, ?a + i))"
      using step [of i t] i Q li f(2) by (simp add: Q'_def)
    moreover have "childNode (slines t ! (?a + i)) = Suc (?a + i)"
    proof -
      from Q have Dt: "map childNode (slines t) = D" by (simp add: Q'_def)
      then have "?a + i < length (slines t)" using li by (metis length_map)
      then have "childNode (slines t ! (?a + i)) = map childNode (slines t) ! (?a + i)"
        by simp
      then show ?thesis using f(6) [OF li] Dt by simp
    qed
    ultimately show "Q' (Suc i) (schedule_line op r k t (i, C ! k ! i))"
      using Q f(2) by (simp add: Q'_def nth schedule_line_shape)
  qed
  then show ?thesis
    using k len by (simp add: process_node_def ck Q'_def sched_inv_def del: upt_Suc)
qed


lemma bfs_loop_rule2:
  assumes ts: "tree_shape C D"
    and step: "\<And>k a b. k < length C \<Longrightarrow> sched_inv C D k a \<Longrightarrow> sched_inv C D k b \<Longrightarrow>
        R k a b \<Longrightarrow>
        sched_inv C D (Suc k) (process_node op1 r k (a\<lparr>queue := tl (queue a)\<rparr>)) \<and>
        sched_inv C D (Suc k) (process_node op2 r k (b\<lparr>queue := tl (queue b)\<rparr>)) \<and>
        R (Suc k) (process_node op1 r k (a\<lparr>queue := tl (queue a)\<rparr>))
                  (process_node op2 r k (b\<lparr>queue := tl (queue b)\<rparr>))"
    and "sched_inv C D k s1" and "sched_inv C D k s2" and "R k s1 s2"
  shows "\<exists>r1 r2. bfs_loop op1 r s1 = Some r1 \<and> bfs_loop op2 r s2 = Some r2 \<and>
           sched_inv C D (length C) r1 \<and> sched_inv C D (length C) r2 \<and>
           R (length C) r1 r2"
  using assms(3-)
proof (induction "length C - k" arbitrary: k s1 s2)
  case 0
  then have k: "k = length C" by (simp add: sched_inv_def)
  have "firstLine C k = length D"
    using ts k by (simp add: firstLine_all tree_shape_def)
  then have "queue s1 = []" "queue s2 = []"
    using 0 k ts by (simp_all add: sched_inv_def tree_shape_def)
  then have "bfs_loop op1 r s1 = Some s1" "bfs_loop op2 r s2 = Some s2"
    by (simp_all add: bfs_loop.simps)
  then show ?case using 0 k by simp
next
  case (Suc n)
  then have k: "k < length C" by simp
  have reach: "k \<le> firstLine C k" using tree_shape_facts(2) [OF ts k] .
  let ?rest = "[Suc k..<Suc (firstLine C k)]"
  have q: "queue s1 = k # ?rest" "queue s2 = k # ?rest"
    using Suc.prems reach by (simp_all add: sched_inv_def upt_conv_Cons del: upt_Suc)
  let ?a = "process_node op1 r k (s1\<lparr>queue := tl (queue s1)\<rparr>)"
  let ?b = "process_node op2 r k (s2\<lparr>queue := tl (queue s2)\<rparr>)"
  have unf: "bfs_loop op1 r s1 = bfs_loop op1 r ?a" "bfs_loop op2 r s2 = bfs_loop op2 r ?b"
    using q by (simp_all add: bfs_loop.simps [of _ _ s1] bfs_loop.simps [of _ _ s2])
  have nxt: "sched_inv C D (Suc k) ?a \<and> sched_inv C D (Suc k) ?b \<and> R (Suc k) ?a ?b"
    using step [OF k Suc.prems] .
  have "n = length C - Suc k" using Suc.hyps(2) by simp
  from Suc.hyps(1) [OF this] nxt show ?case
    unfolding unf by blast
qed

lemma bfs_loop_rule:
  assumes ts: "tree_shape C D"
    and step: "\<And>k a. k < length C \<Longrightarrow> sched_inv C D k a \<Longrightarrow> P k a \<Longrightarrow>
        sched_inv C D (Suc k) (process_node op r k (a\<lparr>queue := tl (queue a)\<rparr>)) \<and>
        P (Suc k) (process_node op r k (a\<lparr>queue := tl (queue a)\<rparr>))"
    and "sched_inv C D k s" and "P k s"
  shows "\<exists>res. bfs_loop op r s = Some res \<and> sched_inv C D (length C) res \<and> P (length C) res"
proof -
  have "\<exists>r1 r2. bfs_loop op r s = Some r1 \<and> bfs_loop op r s = Some r2 \<and>
           sched_inv C D (length C) r1 \<and> sched_inv C D (length C) r2 \<and>
           (P (length C) r1 \<and> r2 = r1)"
  proof (rule bfs_loop_rule2 [OF ts, where R = "\<lambda>k a b. P k a \<and> b = a" and k = k])
    show "sched_inv C D k s" "sched_inv C D k s" "P k s \<and> s = s" using assms by simp_all
  next
    fix k a b
    assume "k < length C" "sched_inv C D k a" "sched_inv C D k b" "P k a \<and> b = a"
    then show "sched_inv C D (Suc k) (process_node op r k (a\<lparr>queue := tl (queue a)\<rparr>)) \<and>
        sched_inv C D (Suc k) (process_node op r k (b\<lparr>queue := tl (queue b)\<rparr>)) \<and>
        P (Suc k) (process_node op r k (a\<lparr>queue := tl (queue a)\<rparr>)) \<and>
        process_node op r k (b\<lparr>queue := tl (queue b)\<rparr>)
          = process_node op r k (a\<lparr>queue := tl (queue a)\<rparr>)"
      using step [of k a] by simp
  qed
  then show ?thesis by auto
qed


text \<open>
  The rule used for every property of the traversal: \<open>J n\<close> is what holds once \<open>n\<close>
  lines have been scheduled. The \<open>n\<close>-th line scheduled is the line with address \<open>n\<close>;
  it is the \<open>i\<close>-th child line of the node \<open>k\<close> being processed.
\<close>

lemma schedule_lines_rule:
  assumes ts: "tree_shape C D"
    and qi: "\<And>n t q. J n t \<Longrightarrow> J n (t\<lparr>queue := q\<rparr>)"
    and step: "\<And>k i t. k < length C \<Longrightarrow> i < length (C ! k) \<Longrightarrow> J (firstLine C k + i) t \<Longrightarrow>
        map children (sheap t) = C \<Longrightarrow> map childNode (slines t) = D \<Longrightarrow>
        k \<le> firstLine C k \<Longrightarrow> firstLine C k + i < length D \<Longrightarrow>
        J (Suc (firstLine C k + i)) (schedule_line op r k t (i, firstLine C k + i))"
    and inv: "sched_inv C D 0 s" and init: "J 0 s"
  shows "\<exists>res. bfs_loop op r s = Some res \<and> sched_inv C D (length C) res \<and> J (length D) res"
proof -
  have "\<exists>res. bfs_loop op r s = Some res \<and> sched_inv C D (length C) res
          \<and> J (firstLine C (length C)) res"
  proof (rule bfs_loop_rule [OF ts, where P = "\<lambda>k a. J (firstLine C k) a" and k = 0])
    show "sched_inv C D 0 s" by (rule inv)
    show "J (firstLine C 0) s" using init by simp
  next
    fix k a
    assume k: "k < length C" and a: "sched_inv C D k a" and J: "J (firstLine C k) a"
    have "J (firstLine C k + length (C ! k)) (process_node op r k (a\<lparr>queue := tl (queue a)\<rparr>))
          \<and> sched_inv C D (Suc k) (process_node op r k (a\<lparr>queue := tl (queue a)\<rparr>))"
    proof (rule process_node_rule [OF ts a k, where Q = "\<lambda>i t. J (firstLine C k + i) t"])
      show "J (firstLine C k + 0) (a\<lparr>queue := tl (queue a)\<rparr>)" using qi [OF J] by simp
    next
      fix i t
      assume "i < length (C ! k)" "J (firstLine C k + i) t" "map children (sheap t) = C"
        "map childNode (slines t) = D" "k \<le> firstLine C k" "firstLine C k + i < length D"
      then show "J (firstLine C k + Suc i) (schedule_line op r k t (i, firstLine C k + i))"
        using step [OF k, of i t] by simp
    qed
    then show "sched_inv C D (Suc k) (process_node op r k (a\<lparr>queue := tl (queue a)\<rparr>)) \<and>
        J (firstLine C (Suc k)) (process_node op r k (a\<lparr>queue := tl (queue a)\<rparr>))"
      by (simp add: firstLine_Suc [OF k])
  qed
  moreover have "firstLine C (length C) = length D"
    using ts by (simp add: firstLine_all tree_shape_def)
  ultimately show ?thesis by simp
qed

lemma schedule_rule:
  assumes ts: "tree_shape (map children hp) (map childNode lns)"
    and qi: "\<And>n t q. J n t \<Longrightarrow> J n (t\<lparr>queue := q\<rparr>)"
    and step: "\<And>k i t. k < length hp \<Longrightarrow> i < length (children (hp ! k)) \<Longrightarrow>
        J (firstLine (map children hp) k + i) t \<Longrightarrow>
        map children (sheap t) = map children hp \<Longrightarrow>
        map childNode (slines t) = map childNode lns \<Longrightarrow>
        k \<le> firstLine (map children hp) k \<Longrightarrow>
        firstLine (map children hp) k + i < length lns \<Longrightarrow>
        J (Suc (firstLine (map children hp) k + i))
          (schedule_line op 0 k t (i, firstLine (map children hp) k + i))"
    and init: "J 0 \<lparr> srng = schedulerRng op,
                     sheap = hp[0 := (hp ! 0)\<lparr>inTime := 0, animStart := 0,
                                animEnd := nodeDuration op, outTime := nodeDuration op\<rparr>],
                     slines = lns, queue = [0], maxTime = nodeDuration op \<rparr>"
  shows "\<exists>res. schedule op 0 hp lns = Some res
           \<and> map children (sheap res) = map children hp
           \<and> map childNode (slines res) = map childNode lns
           \<and> J (length lns) res"
proof -
  let ?C = "map children hp" and ?D = "map childNode lns"
  let ?s = "\<lparr> srng = schedulerRng op,
              sheap = hp[0 := (hp ! 0)\<lparr>inTime := 0, animStart := 0,
                         animEnd := nodeDuration op, outTime := nodeDuration op\<rparr>],
              slines = lns, queue = [0], maxTime = nodeDuration op \<rparr>"
  have inv: "sched_inv ?C ?D 0 ?s"
    by (simp add: sched_inv_def map_update map_update_same)
  have "\<exists>res. bfs_loop op 0 ?s = Some res \<and> sched_inv ?C ?D (length ?C) res
          \<and> J (length ?D) res"
  proof (rule schedule_lines_rule [where J = J and op = op and r = 0, OF ts])
    show "sched_inv ?C ?D 0 ?s" by (rule inv)
    show "J 0 ?s" by (rule init)
    show "\<And>n t q. J n t \<Longrightarrow> J n (t\<lparr>queue := q\<rparr>)" by (rule qi)
  next
    fix k i t
    assume "k < length ?C" "i < length (?C ! k)" "J (firstLine ?C k + i) t"
      "map children (sheap t) = ?C" "map childNode (slines t) = ?D"
      "k \<le> firstLine ?C k" "firstLine ?C k + i < length ?D"
    then show "J (Suc (firstLine ?C k + i)) (schedule_line op 0 k t (i, firstLine ?C k + i))"
      using step [of k i t] by simp
  qed
  then show ?thesis
    by (auto simp: schedule_def Let_def sched_inv_def)
qed

section \<open>One scheduled line\<close>

lemma line_child:
  assumes "tree_shape C D" and "map children (sheap t) = C" and "map childNode (slines t) = D"
    and "n < length D"
  shows "childNode (slines t ! n) = Suc n" and "n < length (slines t)"
    and "Suc n < length (sheap t)"
proof -
  have l: "length (slines t) = length D" "length (sheap t) = length C"
    using assms(2,3) by (metis length_map)+
  show "n < length (slines t)" using l assms(4) by simp
  then have "childNode (slines t ! n) = map childNode (slines t) ! n" by simp
  also have "\<dots> = map Suc [0..<length D] ! n" using assms(1,3) by (simp add: tree_shape_def)
  finally show "childNode (slines t ! n) = Suc n" using assms(4) by simp
  show "Suc n < length (sheap t)" using l assms(1,4) by (simp add: tree_shape_def)
qed

lemma if_less_max: "(if e < l then l else e) = max e (l::real)"
  by (simp add: max_def)

lemma if_greater_max: "(if a > m then a else m) = max m (a::real)"
  by (simp add: max_def)

text \<open>The fields written by one round of the inner loop, with the line and its child known.\<close>

lemma schedule_line_unfold:
  fixes op :: opts and r k i n c :: nat and t :: sched_state
  assumes "childNode (slines t ! n) = c"
  defines "offset \<equiv> (if k = r \<and> simultaneousRoot op then 0
       else childStagger op * real i
            + fst (if randomOffset op > 0
                   then rng_range (- randomOffset op) (randomOffset op) (srng t)
                   else (0, srng t)))"
  defines "lineStart \<equiv> outTime (sheap t ! k) + offset"
  defines "aStart \<equiv> (if smoothFlow op then lineStart else lineStart + lineDuration op)"
  defines "aEnd \<equiv> (if smoothFlow op
       then max (lineStart + max (nodeDuration op) (1 / 10000)) (lineStart + lineDuration op)
       else lineStart + lineDuration op + nodeDuration op)"
  shows "schedule_line op r k t (i, n) =
     \<lparr> srng = snd (if randomOffset op > 0
                    then rng_range (- randomOffset op) (randomOffset op) (srng t)
                    else (0, srng t)),
       sheap = (sheap t)[c := (sheap t ! c)\<lparr>animStart := aStart, inTime := aStart,
                                              animEnd := aEnd, outTime := aEnd\<rparr>],
       slines = (slines t)[n := (slines t ! n)\<lparr>startTime := Some lineStart,
                                               endTime := Some (lineStart + lineDuration op)\<rparr>],
       queue = queue t @ [c],
       maxTime = max (maxTime t) aEnd \<rparr>"
  using assms(1)
  by (simp add: schedule_line_def Let_def offset_def lineStart_def aStart_def aEnd_def
      if_less_max if_greater_max split del: if_split cong: if_cong)


lemma schedule_line_cases:
  fixes op :: opts and r k i n c :: nat and t :: sched_state
  assumes "childNode (slines t ! n) = c"
  obtains off ls st en g where
    "off = (if k = r \<and> simultaneousRoot op then 0
            else childStagger op * real i
                 + fst (if randomOffset op > 0
                        then rng_range (- randomOffset op) (randomOffset op) (srng t)
                        else (0, srng t)))"
    and "ls = outTime (sheap t ! k) + off"
    and "st = (if smoothFlow op then ls else ls + lineDuration op)"
    and "en = (if smoothFlow op
               then max (ls + max (nodeDuration op) (1 / 10000)) (ls + lineDuration op)
               else ls + lineDuration op + nodeDuration op)"
    and "g = snd (if randomOffset op > 0
                  then rng_range (- randomOffset op) (randomOffset op) (srng t)
                  else (0, srng t))"
    and "schedule_line op r k t (i, n) =
     \<lparr> srng = g,
       sheap = (sheap t)[c := (sheap t ! c)\<lparr>animStart := st, inTime := st,
                                              animEnd := en, outTime := en\<rparr>],
       slines = (slines t)[n := (slines t ! n)\<lparr>startTime := Some ls,
                                               endTime := Some (ls + lineDuration op)\<rparr>],
       queue = queue t @ [c],
       maxTime = max (maxTime t) en \<rparr>"
  using that [OF refl refl refl refl refl] schedule_line_unfold [OF assms, where k = k and r = r and op = op and i = i]
  by simp

lemma built_shape:
  "tree_shape (map children (heap (snd (build cmp op))))
              (map childNode (lineInfos (snd (build cmp op))))"
  using build_inv [of cmp op] by (auto simp: builder_inv_def)


section \<open>The normalisation denominator\<close>

lemma schedule_line_maxTime: "maxTime t \<le> maxTime (schedule_line op r k t il)"
  by (simp add: schedule_line_def Let_def)

lemma schedule_built_maxTime:
  "\<exists>res. schedule op 0 (heap (snd (build cmp op))) (lineInfos (snd (build cmp op))) = Some res
         \<and> nodeDuration op \<le> maxTime res"
proof -
  have "\<exists>res. schedule op 0 (heap (snd (build cmp op))) (lineInfos (snd (build cmp op))) = Some res
      \<and> map children (sheap res) = map children (heap (snd (build cmp op)))
      \<and> map childNode (slines res) = map childNode (lineInfos (snd (build cmp op)))
      \<and> nodeDuration op \<le> maxTime res"
  proof (rule schedule_rule [where J = "\<lambda>n t. nodeDuration op \<le> maxTime t", OF built_shape])
    fix k i and t :: sched_state
    assume "nodeDuration op \<le> maxTime t"
    then show "nodeDuration op
      \<le> maxTime (schedule_line op 0 k t
            (i, firstLine (map children (heap (snd (build cmp op)))) k + i))"
      using schedule_line_maxTime [of t op 0 k] by (meson order_trans)
  qed simp_all
  then show ?thesis by blast
qed

text \<open>
  C8. The traversal over the built graph returns, and the denominator used for the
  normalisation is strictly positive: it is \<open>max(nodeDuration, 1)\<close> when the traversal
  leaves \<open>maxTime \<le> 0\<close> and \<open>maxTime\<close> itself otherwise.
\<close>

theorem C8_normalizer_positive:
  "\<exists>res. schedule op (fst (build cmp op)) (heap (snd (build cmp op)))
            (lineInfos (snd (build cmp op))) = Some res
       \<and> 0 < normalizer op (maxTime res)
       \<and> normalizer op (maxTime res)
           = (if maxTime res \<le> 0 then max (nodeDuration op) 1 else maxTime res)"
proof -
  obtain res where "schedule op 0 (heap (snd (build cmp op))) (lineInfos (snd (build cmp op)))
      = Some res" "nodeDuration op \<le> maxTime res"
    using schedule_built_maxTime by blast
  then show ?thesis
    using build_inv [of cmp op] by (auto simp: normalizer_def)
qed

section \<open>Bounds of the normalised windows\<close>






section \<open>Windows relative to the incoming line\<close>

lemma flow_ok_step:
  fixes op :: opts and t :: sched_state
  assumes ok: "flow_ok op n t"
    and ch: "childNode (slines t ! n) = Suc n"
    and ln: "n < length (slines t)" and hn: "Suc n < length (sheap t)"
  shows "flow_ok op (Suc n) (schedule_line op r k t (i, n))"
proof -
  obtain off ls st en g where
    st: "st = (if smoothFlow op then ls else ls + lineDuration op)"
    and en: "en = (if smoothFlow op
               then max (ls + max (nodeDuration op) (1 / 10000)) (ls + lineDuration op)
               else ls + lineDuration op + nodeDuration op)"
    and u: "schedule_line op r k t (i, n) =
     \<lparr> srng = g,
       sheap = (sheap t)[Suc n := (sheap t ! Suc n)\<lparr>animStart := st, inTime := st,
                                              animEnd := en, outTime := en\<rparr>],
       slines = (slines t)[n := (slines t ! n)\<lparr>startTime := Some ls,
                                               endTime := Some (ls + lineDuration op)\<rparr>],
       queue = queue t @ [Suc n],
       maxTime = max (maxTime t) en \<rparr>"
    by (rule schedule_line_cases [OF ch, where k = k and r = r and op = op and i = i])
  show ?thesis
    unfolding flow_ok_def
  proof (intro allI impI)
    fix j assume j: "j < Suc n"
    let ?t' = "schedule_line op r k t (i, n)"
    show "\<exists>s. startTime (slines ?t' ! j) = Some s
        \<and> endTime (slines ?t' ! j) = Some (s + lineDuration op)
        \<and> animStart (sheap ?t' ! Suc j) = (if smoothFlow op then s else s + lineDuration op)
        \<and> animEnd (sheap ?t' ! Suc j)
            = (if smoothFlow op
               then max (s + max (nodeDuration op) (1 / 10000)) (s + lineDuration op)
               else s + lineDuration op + nodeDuration op)
        \<and> outTime (sheap ?t' ! Suc j) = animEnd (sheap ?t' ! Suc j)"
    proof (cases "j = n")
      case True
      then show ?thesis using ln hn st en by (simp add: u)
    next
      case False
      with j have "j < n" by simp
      with ok False show ?thesis by (simp add: flow_ok_def u)
    qed
  qed
qed

lemma child_line_bounds:
  assumes "tree_shape C D" and "p < length C" and "j \<in> set (C ! p)"
  shows "firstLine C p \<le> j" and "j < firstLine C (Suc p)" and "p \<le> j"
proof -
  have "C ! p = [firstLine C p..<firstLine C (Suc p)]"
    by (rule tree_shape_facts(1) [OF assms(1,2)])
  with assms(3) show "firstLine C p \<le> j" "j < firstLine C (Suc p)" by simp_all
  then show "p \<le> j" using tree_shape_facts(2) [OF assms(1,2)] by simp
qed

lemma child_line_unique:
  assumes ts: "tree_shape C D" and p: "p < length C" and k: "k < length C"
    and jp: "j \<in> set (C ! p)" and jk: "j \<in> set (C ! k)"
  shows "p = k"
proof (rule ccontr)
  assume "p \<noteq> k"
  then consider "Suc p \<le> k" | "Suc k \<le> p" by linarith
  then show False
  proof cases
    case 1
    then have "firstLine C (Suc p) \<le> firstLine C k" by (rule firstLine_mono)
    then show False
      using child_line_bounds(2) [OF ts p jp] child_line_bounds(1) [OF ts k jk] by simp
  next
    case 2
    then have "firstLine C (Suc k) \<le> firstLine C p" by (rule firstLine_mono)
    then show False
      using child_line_bounds(2) [OF ts k jk] child_line_bounds(1) [OF ts p jp] by simp
  qed
qed

lemma snd_rng_range: "snd (rng_range lo hi g) = snd (rng_next g)"
  by (simp add: rng_range_def Let_def)

lemma offsets_ok_step:
  fixes op :: opts and t :: sched_state
  assumes ok: "offsets_ok op C n t" and ts: "tree_shape C D"
    and k: "k < length C" and i: "i < length (C ! k)" and n: "n = firstLine C k + i"
    and ch: "childNode (slines t ! n) = Suc n"
    and ln: "n < length (slines t)" and hn: "Suc n < length (sheap t)"
  shows "offsets_ok op C (Suc n) (schedule_line op 0 k t (i, n))"
proof -
  obtain off ls st en g where
    off: "off = (if k = 0 \<and> simultaneousRoot op then 0
            else childStagger op * real i
                 + fst (if randomOffset op > 0
                        then rng_range (- randomOffset op) (randomOffset op) (srng t)
                        else (0, srng t)))"
    and ls: "ls = outTime (sheap t ! k) + off"
    and g: "g = snd (if randomOffset op > 0
                  then rng_range (- randomOffset op) (randomOffset op) (srng t)
                  else (0, srng t))"
    and u: "schedule_line op 0 k t (i, n) =
     \<lparr> srng = g,
       sheap = (sheap t)[Suc n := (sheap t ! Suc n)\<lparr>animStart := st, inTime := st,
                                              animEnd := en, outTime := en\<rparr>],
       slines = (slines t)[n := (slines t ! n)\<lparr>startTime := Some ls,
                                               endTime := Some (ls + lineDuration op)\<rparr>],
       queue = queue t @ [Suc n],
       maxTime = max (maxTime t) en \<rparr>"
    by (rule schedule_line_cases [OF ch, where k = k and r = 0 and op = op and i = i])
  from ok have rs: "srng t = (if randomOffset op > 0 then drawState op n else schedulerRng op)"
    and old: "\<And>p j. p < length C \<Longrightarrow> j \<in> set (C ! p) \<Longrightarrow> j < n \<Longrightarrow>
        startTime (slines t ! j) = Some (outTime (sheap t ! p) + lineOffset op C p j)"
    by (simp_all add: offsets_ok_def)
  have kn: "k \<le> n" using tree_shape_facts(2) [OF ts k] n by simp
  have nk: "n \<in> set (C ! k)"
    using tree_shape_facts(1) [OF ts k] i n by simp
  have g': "g = (if randomOffset op > 0 then drawState op (Suc n) else schedulerRng op)"
    using rs by (simp add: g snd_rng_range drawState_def)
  have off': "off = lineOffset op C k n"
    using rs n by (simp add: off lineOffset_def)
  have new: "startTime (slines (schedule_line op 0 k t (i, n)) ! j)
      = Some (outTime (sheap (schedule_line op 0 k t (i, n)) ! p) + lineOffset op C p j)"
    if p: "p < length C" and jp: "j \<in> set (C ! p)" and j: "j < Suc n" for p j
  proof (cases "j = n")
    case True
    with jp nk have "p = k" using child_line_unique [OF ts p k] by simp
    then show ?thesis using True ln kn off' by (simp add: u ls)
  next
    case False
    with j have jn: "j < n" by simp
    have "p \<le> j" by (rule child_line_bounds(3) [OF ts p jp])
    with jn have "p \<noteq> Suc n" by simp
    then show ?thesis using old [OF p jp jn] False by (simp add: u)
  qed
  show ?thesis unfolding offsets_ok_def using g' new by (simp add: u)
qed

lemma schedule_built_windows:
  fixes op :: opts and cmp :: comp
  defines "hp \<equiv> heap (snd (build cmp op))" and "ls \<equiv> lineInfos (snd (build cmp op))"
  shows "\<exists>res. schedule op 0 hp ls = Some res
      \<and> map children (sheap res) = map children hp
      \<and> map childNode (slines res) = map childNode ls
      \<and> (flow_ok op (length ls) res \<and> offsets_ok op (map children hp) (length ls) res
          \<and> map incomingLine (sheap res) = map incomingLine hp)"
proof (rule schedule_rule [where J = "\<lambda>n t. flow_ok op n t \<and> offsets_ok op (map children hp) n t
          \<and> map incomingLine (sheap t) = map incomingLine hp"])
  show ts: "tree_shape (map children hp) (map childNode ls)"
    unfolding hp_def ls_def by (rule built_shape)
  show "flow_ok op n (t\<lparr>queue := q\<rparr>) \<and> offsets_ok op (map children hp) n (t\<lparr>queue := q\<rparr>)
        \<and> map incomingLine (sheap (t\<lparr>queue := q\<rparr>)) = map incomingLine hp"
    if "flow_ok op n t \<and> offsets_ok op (map children hp) n t
        \<and> map incomingLine (sheap t) = map incomingLine hp" for n t q
    using that by (simp add: flow_ok_def offsets_ok_def)
  show "flow_ok op 0 \<lparr> srng = schedulerRng op,
                     sheap = hp[0 := (hp ! 0)\<lparr>inTime := 0, animStart := 0,
                                animEnd := nodeDuration op, outTime := nodeDuration op\<rparr>],
                     slines = ls, queue = [0], maxTime = nodeDuration op \<rparr>
     \<and> offsets_ok op (map children hp) 0 \<lparr> srng = schedulerRng op,
                     sheap = hp[0 := (hp ! 0)\<lparr>inTime := 0, animStart := 0,
                                animEnd := nodeDuration op, outTime := nodeDuration op\<rparr>],
                     slines = ls, queue = [0], maxTime = nodeDuration op \<rparr>
     \<and> map incomingLine (sheap \<lparr> srng = schedulerRng op,
                     sheap = hp[0 := (hp ! 0)\<lparr>inTime := 0, animStart := 0,
                                animEnd := nodeDuration op, outTime := nodeDuration op\<rparr>],
                     slines = ls, queue = [0], maxTime = nodeDuration op \<rparr>)
         = map incomingLine hp"
    by (simp add: flow_ok_def offsets_ok_def drawState_def map_update map_update_same)
  fix k i and t :: sched_state
  let ?C = "map children hp"
  let ?n = "firstLine ?C k + i"
  assume k: "k < length hp" and i: "i < length (children (hp ! k))"
    and J: "flow_ok op ?n t \<and> offsets_ok op ?C ?n t
            \<and> map incomingLine (sheap t) = map incomingLine hp"
    and C: "map children (sheap t) = ?C" and D: "map childNode (slines t) = map childNode ls"
    and n: "?n < length ls"
  have n': "?n < length (map childNode ls)" using n by simp
  note lc = line_child [OF ts C D n']
  have k': "k < length ?C" and i': "i < length (?C ! k)" using k i by simp_all
  show "flow_ok op (Suc ?n) (schedule_line op 0 k t (i, ?n))
      \<and> offsets_ok op ?C (Suc ?n) (schedule_line op 0 k t (i, ?n))
      \<and> map incomingLine (sheap (schedule_line op 0 k t (i, ?n))) = map incomingLine hp"
    using J flow_ok_step [OF _ lc, of op 0 k i]
      offsets_ok_step [OF _ ts k' i' refl lc, of op]
    by (simp add: schedule_line_shape)
qed


lemma built_lengths:
  "length (heap (snd (build cmp op))) = Suc (length (lineInfos (snd (build cmp op))))"
  using build_inv [of cmp op] builder_inv_lengths by blast


section \<open>Toggling simultaneousRoot\<close>

lemma computeRadius_simultaneousRoot [simp]:
  "computeRadius k (op\<lparr>simultaneousRoot := b\<rparr>) = computeRadius k op"
  by (intro ext) (simp add: computeRadius_def)

lemma level1_child_simultaneousRoot [simp]:
  "level1_child c (op\<lparr>simultaneousRoot := b\<rparr>) = level1_child c op"
  by (intro ext) (simp add: level1_child_def)

lemma branch_child_simultaneousRoot [simp]:
  "branch_child c (op\<lparr>simultaneousRoot := b\<rparr>) = branch_child c op"
  by (intro ext) (simp add: branch_child_def)

lemma branch_parent_simultaneousRoot [simp]:
  "branch_parent c (op\<lparr>simultaneousRoot := b\<rparr>) = branch_parent c op"
  by (intro ext) (simp add: branch_parent_def)

lemma build_level_simultaneousRoot [simp]:
  "build_level c (op\<lparr>simultaneousRoot := b\<rparr>) = build_level c op"
  by (intro ext) (simp add: build_level_def Let_def)

lemma build_simultaneousRoot [simp]:
  "build cmp (op\<lparr>simultaneousRoot := b\<rparr>) = build cmp op"
  by (simp add: build_def builderRng_def)

lemma drawState_simultaneousRoot [simp]:
  "drawState (op\<lparr>simultaneousRoot := b\<rparr>) n = drawState op n"
  by (simp add: drawState_def schedulerRng_def)

lemma lineOffset_simultaneousRoot:
  "0 < p \<Longrightarrow> lineOffset (op\<lparr>simultaneousRoot := b\<rparr>) C p j = lineOffset op C p j"
  by (simp add: lineOffset_def)

lemma flow_ok_simultaneousRoot [simp]:
  "flow_ok (op\<lparr>simultaneousRoot := b\<rparr>) n t = flow_ok op n t"
  by (simp add: flow_ok_def)

lemma schedule_toggle:
  fixes op :: opts and cmp :: comp and b :: bool
  defines "hp \<equiv> heap (snd (build cmp op))" and "ls \<equiv> lineInfos (snd (build cmp op))"
  shows "\<exists>res. schedule (op\<lparr>simultaneousRoot := b\<rparr>) 0 hp ls = Some res
      \<and> srng res = (if randomOffset op > 0 then drawState op (length ls) else schedulerRng op)
      \<and> (\<forall>p<length hp. 0 < p \<longrightarrow> (\<forall>j\<in>set (children (hp ! p)).
            startTime (slines res ! j)
              = Some (outTime (sheap res ! p) + lineOffset op (map children hp) p j)))
      \<and> flow_ok op (length ls) res"
proof -
  let ?op = "op\<lparr>simultaneousRoot := b\<rparr>"
  obtain res where run: "schedule ?op 0 hp ls = Some res"
    and fl: "flow_ok ?op (length ls) res"
    and off: "offsets_ok ?op (map children hp) (length ls) res"
    using schedule_built_windows [of ?op cmp] by (auto simp: hp_def ls_def)
  have ts: "tree_shape (map children hp) (map childNode ls)"
    unfolding hp_def ls_def by (rule built_shape)
  have a: "srng res = (if randomOffset op > 0 then drawState op (length ls) else schedulerRng op)"
    using off by (simp add: offsets_ok_def schedulerRng_def)
  have b: "startTime (slines res ! j)
              = Some (outTime (sheap res ! p) + lineOffset op (map children hp) p j)"
    if p: "p < length hp" "0 < p" and j: "j \<in> set (children (hp ! p))" for p j
  proof -
    have p': "p < length (map children hp)" and j': "j \<in> set (map children hp ! p)"
      using p j by simp_all
    have "j < firstLine (map children hp) (Suc p)"
      by (rule child_line_bounds(2) [OF ts p' j'])
    also have "\<dots> \<le> length (map childNode ls)"
      by (rule tree_shape_facts(3) [OF ts p'])
    finally have "j < length ls" by simp
    with off p' j' have "startTime (slines res ! j)
        = Some (outTime (sheap res ! p) + lineOffset ?op (map children hp) p j)"
      by (simp add: offsets_ok_def)
    then show ?thesis using p(2) by (simp add: lineOffset_simultaneousRoot)
  qed
  show ?thesis using run a b fl by simp
qed

text \<open>
  C10. The builder does not read \<open>simultaneousRoot\<close>. On the built graph the scheduler
  returns for both settings of \<open>simultaneousRoot\<close>, and its RNG ends in the same state:
  with \<open>randomOffset > 0\<close> that state is the initial one advanced once per connection
  line, root lines included. In both runs every line of a node other than the centre
  starts its draw at its parent's end of activation plus the same offset: the stagger of
  its position among its siblings plus the draw made for that line. In both runs every
  line's draw end and its child's activation window follow from the line's own draw
  start by the same formulas, so that the two timelines differ only through the draw
  starts of the centre's lines.
\<close>

theorem C10_one_draw_per_edge:
  "build cmp (op\<lparr>simultaneousRoot := True\<rparr>) = build cmp op
   \<and> build cmp (op\<lparr>simultaneousRoot := False\<rparr>) = build cmp op
   \<and> (\<exists>r1 r2.
        schedule (op\<lparr>simultaneousRoot := True\<rparr>) 0 (heap (snd (build cmp op)))
          (lineInfos (snd (build cmp op))) = Some r1
      \<and> schedule (op\<lparr>simultaneousRoot := False\<rparr>) 0 (heap (snd (build cmp op)))
          (lineInfos (snd (build cmp op))) = Some r2
      \<and> srng r1 = srng r2
      \<and> (0 < randomOffset op \<longrightarrow>
            srng r1 = drawState op (length (lineInfos (snd (build cmp op)))))
      \<and> (\<forall>p<length (heap (snd (build cmp op))). 0 < p \<longrightarrow>
           (\<forall>j\<in>set (children (heap (snd (build cmp op)) ! p)).
              startTime (slines r1 ! j)
                = Some (outTime (sheap r1 ! p)
                        + lineOffset op (map children (heap (snd (build cmp op)))) p j)
            \<and> startTime (slines r2 ! j)
                = Some (outTime (sheap r2 ! p)
                        + lineOffset op (map children (heap (snd (build cmp op)))) p j)))
      \<and> (\<forall>j<length (lineInfos (snd (build cmp op))).
           \<exists>s1 s2. startTime (slines r1 ! j) = Some s1 \<and> startTime (slines r2 ! j) = Some s2
             \<and> endTime (slines r1 ! j) = Some (s1 + lineDuration op)
             \<and> endTime (slines r2 ! j) = Some (s2 + lineDuration op)
             \<and> animStart (sheap r1 ! Suc j) = (if smoothFlow op then s1 else s1 + lineDuration op)
             \<and> animStart (sheap r2 ! Suc j) = (if smoothFlow op then s2 else s2 + lineDuration op)
             \<and> animEnd (sheap r1 ! Suc j)
                 = (if smoothFlow op
                    then max (s1 + max (nodeDuration op) (1 / 10000)) (s1 + lineDuration op)
                    else s1 + lineDuration op + nodeDuration op)
             \<and> animEnd (sheap r2 ! Suc j)
                 = (if smoothFlow op
                    then max (s2 + max (nodeDuration op) (1 / 10000)) (s2 + lineDuration op)
                    else s2 + lineDuration op + nodeDuration op)))"
proof -
  let ?hp = "heap (snd (build cmp op))" and ?ls = "lineInfos (snd (build cmp op))"
  obtain r1 where r1: "schedule (op\<lparr>simultaneousRoot := True\<rparr>) 0 ?hp ?ls = Some r1"
    "srng r1 = (if randomOffset op > 0 then drawState op (length ?ls) else schedulerRng op)"
    "\<forall>p<length ?hp. 0 < p \<longrightarrow> (\<forall>j\<in>set (children (?hp ! p)).
        startTime (slines r1 ! j)
          = Some (outTime (sheap r1 ! p) + lineOffset op (map children ?hp) p j))"
    "flow_ok op (length ?ls) r1"
    using schedule_toggle [where op = op and b = True and cmp = cmp] by blast
  obtain r2 where r2: "schedule (op\<lparr>simultaneousRoot := False\<rparr>) 0 ?hp ?ls = Some r2"
    "srng r2 = (if randomOffset op > 0 then drawState op (length ?ls) else schedulerRng op)"
    "\<forall>p<length ?hp. 0 < p \<longrightarrow> (\<forall>j\<in>set (children (?hp ! p)).
        startTime (slines r2 ! j)
          = Some (outTime (sheap r2 ! p) + lineOffset op (map children ?hp) p j))"
    "flow_ok op (length ?ls) r2"
    using schedule_toggle [where op = op and b = False and cmp = cmp] by blast
  have a: "srng r1 = srng r2" using r1(2) r2(2) by simp
  have b: "0 < randomOffset op \<longrightarrow> srng r1 = drawState op (length ?ls)" using r1(2) by simp
  have c: "\<forall>p<length ?hp. 0 < p \<longrightarrow>
           (\<forall>j\<in>set (children (?hp ! p)).
              startTime (slines r1 ! j)
                = Some (outTime (sheap r1 ! p) + lineOffset op (map children ?hp) p j)
            \<and> startTime (slines r2 ! j)
                = Some (outTime (sheap r2 ! p) + lineOffset op (map children ?hp) p j))"
    using r1(3) r2(3) by simp
  have d: "\<forall>j<length ?ls.
           \<exists>s1 s2. startTime (slines r1 ! j) = Some s1 \<and> startTime (slines r2 ! j) = Some s2
             \<and> endTime (slines r1 ! j) = Some (s1 + lineDuration op)
             \<and> endTime (slines r2 ! j) = Some (s2 + lineDuration op)
             \<and> animStart (sheap r1 ! Suc j) = (if smoothFlow op then s1 else s1 + lineDuration op)
             \<and> animStart (sheap r2 ! Suc j) = (if smoothFlow op then s2 else s2 + lineDuration op)
             \<and> animEnd (sheap r1 ! Suc j)
                 = (if smoothFlow op
                    then max (s1 + max (nodeDuration op) (1 / 10000)) (s1 + lineDuration op)
                    else s1 + lineDuration op + nodeDuration op)
             \<and> animEnd (sheap r2 ! Suc j)
                 = (if smoothFlow op
                    then max (s2 + max (nodeDuration op) (1 / 10000)) (s2 + lineDuration op)
                    else s2 + lineDuration op + nodeDuration op)"
  proof (intro allI impI)
    fix j assume j: "j < length ?ls"
    from r1(4) j obtain s1 where s1: "startTime (slines r1 ! j) = Some s1"
      "endTime (slines r1 ! j) = Some (s1 + lineDuration op)"
      "animStart (sheap r1 ! Suc j) = (if smoothFlow op then s1 else s1 + lineDuration op)"
      "animEnd (sheap r1 ! Suc j)
         = (if smoothFlow op
            then max (s1 + max (nodeDuration op) (1 / 10000)) (s1 + lineDuration op)
            else s1 + lineDuration op + nodeDuration op)"
      unfolding flow_ok_def by blast
    from r2(4) j obtain s2 where s2: "startTime (slines r2 ! j) = Some s2"
      "endTime (slines r2 ! j) = Some (s2 + lineDuration op)"
      "animStart (sheap r2 ! Suc j) = (if smoothFlow op then s2 else s2 + lineDuration op)"
      "animEnd (sheap r2 ! Suc j)
         = (if smoothFlow op
            then max (s2 + max (nodeDuration op) (1 / 10000)) (s2 + lineDuration op)
            else s2 + lineDuration op + nodeDuration op)"
      unfolding flow_ok_def by blast
    show "\<exists>s1 s2. startTime (slines r1 ! j) = Some s1 \<and> startTime (slines r2 ! j) = Some s2
             \<and> endTime (slines r1 ! j) = Some (s1 + lineDuration op)
             \<and> endTime (slines r2 ! j) = Some (s2 + lineDuration op)
             \<and> animStart (sheap r1 ! Suc j) = (if smoothFlow op then s1 else s1 + lineDuration op)
             \<and> animStart (sheap r2 ! Suc j) = (if smoothFlow op then s2 else s2 + lineDuration op)
             \<and> animEnd (sheap r1 ! Suc j)
                 = (if smoothFlow op
                    then max (s1 + max (nodeDuration op) (1 / 10000)) (s1 + lineDuration op)
                    else s1 + lineDuration op + nodeDuration op)
             \<and> animEnd (sheap r2 ! Suc j)
                 = (if smoothFlow op
                    then max (s2 + max (nodeDuration op) (1 / 10000)) (s2 + lineDuration op)
                    else s2 + lineDuration op + nodeDuration op)"
      using s1 s2 by (intro exI [of _ s1] exI [of _ s2] conjI)
  qed
  have e: "build cmp (op\<lparr>simultaneousRoot := True\<rparr>) = build cmp op"
    "build cmp (op\<lparr>simultaneousRoot := False\<rparr>) = build cmp op"
    by simp_all
  show ?thesis
    using e r1(1) r2(1) a b c d by (intro conjI exI [of _ r1] exI [of _ r2])
qed

section \<open>Runs on concrete configurations\<close>

text \<open>
  The definitions unfolded to run the builder and the scheduler on a concrete
  configuration inside the logic.
\<close>

lemmas run_defs = generateStructure_def applyBranchAnimation_def schedule_def bfs_loop.simps
  process_node_def schedule_line_def normalizer_def lineProgress_def nodeProgress_def
  enumerate_eq_zip schedulerRng_def
  build_def builderRng_def build_level_def branch_parent_def branch_child_def level1_child_def
  addNode_def addConnectionLine_def computeRadius_def rng_range_def rng_next_def createRng_def
  js_rem_def polarToCartesian_def toRadians_def Let_def upt_conv_Cons
  DEFAULTS_def hdComp_def

lemmas shape_defs = build_def builderRng_def build_level_def branch_parent_def branch_child_def
  level1_child_def addNode_def addConnectionLine_def enumerate_eq_zip Let_def upt_conv_Cons

text \<open>
  C8 on a graph of the root alone with \<open>nodeDuration = 0\<close>: the traversal leaves
  \<open>maxTime = 0\<close> and the denominator is \<open>max(0, 1) = 1\<close>.
\<close>

theorem C8_normalizer_positive_witness:
  "\<exists>res. schedule rootOnly (fst (build hdComp rootOnly)) (heap (snd (build hdComp rootOnly)))
            (lineInfos (snd (build hdComp rootOnly))) = Some res
       \<and> maxTime res \<le> 0
       \<and> normalizer rootOnly (maxTime res) = max (nodeDuration rootOnly) 1
       \<and> normalizer rootOnly (maxTime res) = 1"
proof -
  obtain res where r: "schedule rootOnly (fst (build hdComp rootOnly))
      (heap (snd (build hdComp rootOnly))) (lineInfos (snd (build hdComp rootOnly))) = Some res"
    "normalizer rootOnly (maxTime res)
       = (if maxTime res \<le> 0 then max (nodeDuration rootOnly) 1 else maxTime res)"
    using C8_normalizer_positive [of rootOnly hdComp] by blast
  have "map_option maxTime (schedule rootOnly (fst (build hdComp rootOnly))
      (heap (snd (build hdComp rootOnly))) (lineInfos (snd (build hdComp rootOnly)))) = Some 0"
    by (simp add: run_defs rootOnly_def cong: let_weak_cong)
  with r(1) have m: "maxTime res = 0" by simp
  have "nodeDuration rootOnly = 0" by (simp add: rootOnly_def DEFAULTS_def)
  with m r show ?thesis by (intro exI [of _ res]) simp
qed





text \<open>
  C10 on a chain root - node 1 - node 2 with the default \<open>randomOffset = 0.06\<close>: both runs
  end in the RNG state after two draws, the line from node 1 to node 2 starts at the same
  offset from the end of node 1 in both, and the line out of the root starts at different
  times.
\<close>

theorem C10_one_draw_per_edge_witness:
  "0 < randomOffset chain
   \<and> (1::nat) < length (heap (snd (build hdComp chain)))
   \<and> (1::nat) \<in> set (children (heap (snd (build hdComp chain)) ! 1))
   \<and> length (lineInfos (snd (build hdComp chain))) = 2
   \<and> (\<exists>r1 r2.
        schedule (chain\<lparr>simultaneousRoot := True\<rparr>) 0 (heap (snd (build hdComp chain)))
          (lineInfos (snd (build hdComp chain))) = Some r1
      \<and> schedule (chain\<lparr>simultaneousRoot := False\<rparr>) 0 (heap (snd (build hdComp chain)))
          (lineInfos (snd (build hdComp chain))) = Some r2
      \<and> srng r1 = srng r2
      \<and> srng r1 = drawState chain 2
      \<and> startTime (slines r1 ! 1)
          = Some (outTime (sheap r1 ! 1)
                  + lineOffset chain (map children (heap (snd (build hdComp chain)))) 1 1)
      \<and> startTime (slines r2 ! 1)
          = Some (outTime (sheap r2 ! 1)
                  + lineOffset chain (map children (heap (snd (build hdComp chain)))) 1 1)
      \<and> startTime (slines r1 ! 0) \<noteq> startTime (slines r2 ! 0))"
proof -
  let ?B = "snd (build hdComp chain)"
  have h: "0 < randomOffset chain" by (simp add: chain_def DEFAULTS_def)
  have sh: "map children (heap ?B) = [[0], [1], []]"
    by (simp add: run_defs chain_def cong: let_weak_cong)
  have hl: "length (heap ?B) = 3" using arg_cong [OF sh, of length] by simp
  have ch: "children (heap ?B ! 1) = [1]"
    using arg_cong [OF sh, of "\<lambda>xs. xs ! 1"] hl by simp
  have ll: "length (lineInfos ?B) = 2" using built_lengths [of hdComp chain] hl by simp
  obtain r1 r2 where
    r: "schedule (chain\<lparr>simultaneousRoot := True\<rparr>) 0 (heap ?B) (lineInfos ?B) = Some r1"
       "schedule (chain\<lparr>simultaneousRoot := False\<rparr>) 0 (heap ?B) (lineInfos ?B) = Some r2"
       "srng r1 = srng r2"
       "0 < randomOffset chain \<longrightarrow> srng r1 = drawState chain (length (lineInfos ?B))"
    and off: "\<forall>p<length (heap ?B). 0 < p \<longrightarrow>
           (\<forall>j\<in>set (children (heap ?B ! p)).
              startTime (slines r1 ! j)
                = Some (outTime (sheap r1 ! p) + lineOffset chain (map children (heap ?B)) p j)
            \<and> startTime (slines r2 ! j)
                = Some (outTime (sheap r2 ! p) + lineOffset chain (map children (heap ?B)) p j))"
    using C10_one_draw_per_edge [of hdComp chain] by blast
  from off hl ch have o1:
    "startTime (slines r1 ! 1)
       = Some (outTime (sheap r1 ! 1) + lineOffset chain (map children (heap ?B)) 1 1)"
    "startTime (slines r2 ! 1)
       = Some (outTime (sheap r2 ! 1) + lineOffset chain (map children (heap ?B)) 1 1)"
    by simp_all
  have "map_option (\<lambda>r. startTime (slines r ! 0))
          (schedule (chain\<lparr>simultaneousRoot := True\<rparr>) 0 (heap ?B) (lineInfos ?B))
        \<noteq> map_option (\<lambda>r. startTime (slines r ! 0))
          (schedule (chain\<lparr>simultaneousRoot := False\<rparr>) 0 (heap ?B) (lineInfos ?B))"
    by (simp add: run_defs chain_def cong: let_weak_cong)
  with r(1,2) have d: "startTime (slines r1 ! 0) \<noteq> startTime (slines r2 ! 0)" by simp
  show ?thesis
    using h hl ch ll r o1 d by (intro conjI exI [of _ r1] exI [of _ r2]) simp_all
qed

section \<open>Determinism\<close>

lemma generateStructure_returns: "\<exists>a. generateStructure cmp op = Some a"
  using schedule_built_maxTime [of op cmp] build_inv [of cmp op]
  by (auto simp: generateStructure_def applyBranchAnimation_def Let_def)

lemma build_comp_dims:
  "width c1 = width c2 \<Longrightarrow> height c1 = height c2 \<Longrightarrow> build c1 op = build c2 op"
  by (simp add: build_def)

text \<open>
  C7. A run of the generator (the builder followed by the scheduler) returns, and its
  result is a function of the options, the seed among them, and of the width and the
  height of the composition: two runs with the same options on compositions of the same
  size give the same nodes, with their angles, radii and positions, and the same
  activation and draw windows. The builder and the scheduler draw only from the RNGs they
  create from the seed; neither reads a clock or \<open>Math.random\<close>.
\<close>

theorem C7_deterministic:
  assumes "width c1 = width c2" and "height c1 = height c2"
  shows "generateStructure c1 op = generateStructure c2 op
         \<and> (\<exists>a. generateStructure c1 op = Some a)"
  using build_comp_dims [OF assms, of op] generateStructure_returns [of c1 op]
  by (simp add: generateStructure_def)

theorem C7_deterministic_witness:
  "width hdComp = width (hdComp\<lparr>displayStartTime := 5\<rparr>)
   \<and> height hdComp = height (hdComp\<lparr>displayStartTime := 5\<rparr>)
   \<and> generateStructure hdComp twoSpokes
       = generateStructure (hdComp\<lparr>displayStartTime := 5\<rparr>) twoSpokes
   \<and> (\<exists>a. generateStructure hdComp twoSpokes = Some a)"
proof -
  have a: "width hdComp = width (hdComp\<lparr>displayStartTime := 5\<rparr>)"
          "height hdComp = height (hdComp\<lparr>displayStartTime := 5\<rparr>)"
    by simp_all
  from C7_deterministic [OF a, of twoSpokes] a show ?thesis by blast
qed

section \<open>The scenario of the specification\<close>

text \<open>
  C2. For \<open>seed = 12345\<close>, \<open>initialLines = 4\<close>, \<open>levels = 2\<close>, \<open>childrenPerNode = 2\<close>,
  \<open>angleJitter = 0\<close> and \<open>branchSpread = 60\<close>, whatever the other options and the
  composition, the builder creates exactly 13 nodes; the nodes of level 1 are the nodes
  1 to 4, with the angles 0, 90, 180 and 270; and the children of node 1, the node of
  level 1 at angle 0, are the nodes 5 and 6, of level 2, with the angles -30 and 30.
\<close>

theorem C2_scenario:
  assumes "seed op = 12345" and "initialLines op = 4" and "levels op = 2"
    and "childrenPerNode op = 2" and "angleJitter op = 0" and "branchSpread op = 60"
  shows "length (heap (snd (build cmp op))) = 13
    \<and> filter (\<lambda>a. level (heap (snd (build cmp op)) ! a) = 1) [0..<13] = [1, 2, 3, 4]
    \<and> map (\<lambda>a. angle (heap (snd (build cmp op)) ! a)) [1, 2, 3, 4] = [0, 90, 180, 270]
    \<and> map (\<lambda>l. childNode (lineInfos (snd (build cmp op)) ! l))
          (children (heap (snd (build cmp op)) ! 1)) = [5, 6]
    \<and> map (\<lambda>a. level (heap (snd (build cmp op)) ! a)) [5, 6] = [2, 2]
    \<and> map (\<lambda>a. angle (heap (snd (build cmp op)) ! a)) [5, 6] = [- 30, 30]"
  using assms by (simp add: shape_defs cong: let_weak_cong)

theorem C2_scenario_witness:
  "seed scenario = 12345 \<and> initialLines scenario = 4 \<and> levels scenario = 2
   \<and> childrenPerNode scenario = 2 \<and> angleJitter scenario = 0 \<and> branchSpread scenario = 60
   \<and> length (heap (snd (build hdComp scenario))) = 13
   \<and> map (\<lambda>a. angle (heap (snd (build hdComp scenario)) ! a)) [1, 2, 3, 4] = [0, 90, 180, 270]
   \<and> map (\<lambda>a. angle (heap (snd (build hdComp scenario)) ! a)) [5, 6] = [- 30, 30]"
proof -
  have h: "seed scenario = 12345" "initialLines scenario = 4" "levels scenario = 2"
    "childrenPerNode scenario = 2" "angleJitter scenario = 0" "branchSpread scenario = 60"
    by (simp_all add: scenario_def DEFAULTS_def)
  from C2_scenario [OF h, of hdComp] h show ?thesis by simp
qed

end
